theory Spec2Isabelle
  imports Complex_Main "HOL-Library.Multiset" "HOL-Library.Sublist"
begin

section \<open>NZ Lotto simulator: the draw, the scoring core and the tallies\<close>

text \<open>
  A shallow embedding of \<^verbatim>\<open>CODE_BASE.py\<close>. Python integers are \<^typ>\<open>int\<close>;
  dollar amounts (Python floats such as \<^verbatim>\<open>0.70\<close> and \<^verbatim>\<open>2.80\<close>) are exact
  rationals, so rounding of binary floating point is not part of the model. A Python
  exception is the \<open>Inl\<close> branch of a sum. The two dictionaries \<^verbatim>\<open>stats\<close> and
  \<^verbatim>\<open>paid\<close> are association lists in insertion order, and the Tk variables they hold
  are the stored values.
\<close>

subsection \<open>Errors and results\<close>

datatype error = IndexError | KeyError | ValueError

definition bind_err :: "error + 'a \<Rightarrow> ('a \<Rightarrow> error + 'b) \<Rightarrow> error + 'b" where
  "bind_err r f = (case r of Inl e \<Rightarrow> Inl e | Inr v \<Rightarrow> f v)"

text \<open>\<^verbatim>\<open>xs[i]\<close> on a Python list: an index from \<open>-len\<close> up to \<open>-1\<close> reads from the
  end, and an index outside \<open>-len .. len - 1\<close> raises IndexError.\<close>

definition py_index :: "'a list \<Rightarrow> int \<Rightarrow> error + 'a" where
  "py_index xs i =
     (if 0 \<le> i \<and> i < int (length xs) then Inr (xs ! nat i)
      else if i < 0 \<and> - int (length xs) \<le> i then Inr (xs ! nat (int (length xs) + i))
      else Inl IndexError)"

subsection \<open>Constants\<close>

definition COST_LOTTO_ONLY :: rat where "COST_LOTTO_ONLY = 0.70"
definition COST_LOTTO_PB :: rat where "COST_LOTTO_PB = 1.50"
definition COST_STRIKE :: rat where "COST_STRIKE = 1.00"

definition LOTTO_NO_PB :: "rat list" where
  "LOTTO_NO_PB = [1000000, 23500, 674, 48, 26, 21, 2.80]"

definition LOTTO_WITH_PB :: "rat list" where
  "LOTTO_WITH_PB = [30000000, 32560, 850, 98, 51, 41, 17.80]"

definition STRIKE_PAYOUT :: "rat list" where
  "STRIKE_PAYOUT = [1, 77, 545, 1000000]"

definition DEFAULT_SPEED :: int where "DEFAULT_SPEED = 10000"

subsection \<open>The random source\<close>

text \<open>
  \<^verbatim>\<open>rng = SystemRandom()\<close> is an oracle: the \<open>n\<close>-th call made to it returns what
  the oracle holds at \<open>n\<close>, and the program state counts the calls made so far.
  \<open>shuffle_out R n xs\<close> is the list \<^verbatim>\<open>rng.shuffle\<close> leaves in place of \<open>xs\<close>,
  \<open>randrange_out R n a b\<close> the value of \<^verbatim>\<open>rng.randrange(a, b)\<close>, and
  \<open>sample_out R n xs k\<close> the value of \<^verbatim>\<open>rng.sample(xs, k)\<close> for \<open>k\<close> within the
  population. \<open>rng_ok\<close> is the library's contract for the three methods.
\<close>

record rng_oracle =
  shuffle_out :: "nat \<Rightarrow> int list \<Rightarrow> int list"
  randrange_out :: "nat \<Rightarrow> int \<Rightarrow> int \<Rightarrow> int"
  sample_out :: "nat \<Rightarrow> int list \<Rightarrow> nat \<Rightarrow> int list"

definition rng_ok :: "rng_oracle \<Rightarrow> bool" where
  "rng_ok R \<longleftrightarrow>
     (\<forall>n xs. mset (shuffle_out R n xs) = mset xs) \<and>
     (\<forall>n a b. a < b \<longrightarrow> a \<le> randrange_out R n a b \<and> randrange_out R n a b < b) \<and>
     (\<forall>n xs k. k \<le> length xs \<longrightarrow>
        length (sample_out R n xs k) = k \<and> mset (sample_out R n xs k) \<subseteq># mset xs)"

text \<open>\<^verbatim>\<open>rng.sample(population, k)\<close> raises ValueError when \<open>k\<close> is negative or larger
  than the population.\<close>

definition rng_sample :: "rng_oracle \<Rightarrow> nat \<Rightarrow> int list \<Rightarrow> int \<Rightarrow> error + int list" where
  "rng_sample R n xs k =
     (if k < 0 \<or> int (length xs) < k then Inl ValueError
      else Inr (sample_out R n xs (nat k)))"

subsection \<open>\<^verbatim>\<open>draw_lotto\<close>\<close>

text \<open>Takes the number of calls made to the random source so far; returns
  \<open>(main6, bonus, pb)\<close> and the new number of calls.\<close>

definition draw_lotto :: "rng_oracle \<Rightarrow> nat \<Rightarrow> error + ((int list \<times> int \<times> int) \<times> nat)" where
  "draw_lotto R n =
     (let balls = shuffle_out R n [1..40];
          main6 = take 6 balls
      in bind_err (py_index balls 6) (\<lambda>bonus.
           let pb = randrange_out R (n + 1) 1 11
           in Inr ((main6, bonus, pb), n + 2)))"

subsection \<open>Decimal text of an integer\<close>

text \<open>\<^verbatim>\<open>str(n)\<close>, as the f-strings \<^verbatim>\<open>f"D{division}"\<close> and \<^verbatim>\<open>f"S{hits}"\<close> use it.\<close>

definition digit_char :: "nat \<Rightarrow> char" where
  "digit_char d = ''0123456789'' ! d"

fun str_nat :: "nat \<Rightarrow> string" where
  "str_nat n = (if n < 10 then [digit_char n] else str_nat (n div 10) @ [digit_char (n mod 10)])"

declare str_nat.simps [simp del]

definition str_int :: "int \<Rightarrow> string" where
  "str_int i = (if i < 0 then CHR ''-'' # str_nat (nat (- i)) else str_nat (nat i))"

subsection \<open>The tallies \<^verbatim>\<open>stats\<close> and \<^verbatim>\<open>paid\<close>\<close>

text \<open>
  A dictionary from prize code to a Tk variable. \<open>var_get\<close> is \<^verbatim>\<open>d[k].get()\<close>, which
  raises KeyError for a missing key; \<open>var_set\<close> is \<^verbatim>\<open>d[k].set(v)\<close> on a key that is
  there; \<open>dict_store\<close> is the assignment \<^verbatim>\<open>d[k] = v\<close>, which adds a missing key at the
  end.
\<close>

type_synonym 'v dict = "(string \<times> 'v) list"

definition var_get :: "'v dict \<Rightarrow> string \<Rightarrow> error + 'v" where
  "var_get d k = (case map_of d k of None \<Rightarrow> Inl KeyError | Some v \<Rightarrow> Inr v)"

definition var_set :: "'v dict \<Rightarrow> string \<Rightarrow> 'v \<Rightarrow> 'v dict" where
  "var_set d k v = map (\<lambda>(k', v'). if k' = k then (k', v) else (k', v')) d"

definition dict_store :: "'v dict \<Rightarrow> string \<Rightarrow> 'v \<Rightarrow> 'v dict" where
  "dict_store d k v = (if k \<in> set (map fst d) then var_set d k v else d @ [(k, v)])"

definition dict_values :: "'v dict \<Rightarrow> 'v list" where
  "dict_values d = map snd d"

record ledger =
  stats :: "int dict"
  paid :: "rat dict"

definition codes :: "string list" where
  "codes = [''D1'', ''D2'', ''D3'', ''D4'', ''D5'', ''D6'', ''D7'', ''S1'', ''S2'', ''S3'', ''S4'']"

definition init_vars :: "'a ledger_scheme \<Rightarrow> 'a ledger_scheme" where
  "init_vars L =
     fold (\<lambda>k L'. L'\<lparr>stats := dict_store (stats L') k 0, paid := dict_store (paid L') k 0\<rparr>)
       codes L"

definition award_lotto :: "int \<Rightarrow> bool \<Rightarrow> 'a ledger_scheme \<Rightarrow> error + 'a ledger_scheme" where
  "award_lotto division powerball_matched L =
     (let code = ''D'' @ str_int division
      in bind_err (py_index (if powerball_matched then LOTTO_WITH_PB else LOTTO_NO_PB)
                     (division - 1)) (\<lambda>amount.
         bind_err (var_get (stats L) code) (\<lambda>c.
         bind_err (var_get (paid L) code) (\<lambda>p.
           Inr (L\<lparr>stats := var_set (stats L) code (c + 1),
                    paid := var_set (paid L) code (p + amount)\<rparr>)))))"

definition award_strike :: "int \<Rightarrow> 'a ledger_scheme \<Rightarrow> error + 'a ledger_scheme" where
  "award_strike hits L =
     (let code = ''S'' @ str_int hits
      in bind_err (var_get (stats L) code) (\<lambda>c.
         bind_err (var_get (paid L) code) (\<lambda>p.
         bind_err (py_index STRIKE_PAYOUT (hits - 1)) (\<lambda>amount.
           Inr (L\<lparr>stats := var_set (stats L) code (c + 1),
                    paid := var_set (paid L) code (p + amount)\<rparr>)))))"

subsection \<open>Ticket lines and \<^verbatim>\<open>score_line_against_draw\<close>\<close>

text \<open>The dictionary \<^verbatim>\<open>{'nums': ..., 'pb': ...}\<close> of one parsed line; \<^verbatim>\<open>None\<close> is
  \<open>None\<close>.\<close>

record ticket_line =
  line_nums :: "int list"
  line_pb :: "int option"

text \<open>The \<^verbatim>\<open>if\<close>/\<^verbatim>\<open>elif\<close> chain that sets \<^verbatim>\<open>division\<close>.\<close>

definition division_of :: "int \<Rightarrow> bool \<Rightarrow> int option" where
  "division_of m b =
     (if m = 6 then Some 1
      else if m = 5 \<and> b then Some 2
      else if m = 5 then Some 3
      else if m = 4 \<and> b then Some 4
      else if m = 4 then Some 5
      else if m = 3 \<and> b then Some 6
      else if m = 3 then Some 7
      else None)"

text \<open>\<^verbatim>\<open>sum(1 for i in range(4) if strike_guess[i] == strike_draw[i])\<close>: reading
  either list beyond its end raises IndexError.\<close>

definition strike_hits :: "int list \<Rightarrow> int list \<Rightarrow> error + int" where
  "strike_hits strike_guess strike_draw =
     (if length strike_guess < 4 \<or> length strike_draw < 4 then Inl IndexError
      else Inr (int (length (filter (\<lambda>i. strike_guess ! i = strike_draw ! i) [0..<4]))))"

definition main_matches :: "int list \<Rightarrow> int list \<Rightarrow> int" where
  "main_matches ns main6 = int (length (filter (\<lambda>x. x \<in> set main6) ns))"

definition line_cost :: "ticket_line \<Rightarrow> bool \<Rightarrow> rat" where
  "line_cost line strike_on =
     (let cost = (if line_pb line \<noteq> None then COST_LOTTO_PB else COST_LOTTO_ONLY)
      in if strike_on then cost + COST_STRIKE else cost)"

definition score_line_against_draw ::
  "ticket_line \<Rightarrow> int list \<Rightarrow> int \<Rightarrow> int \<Rightarrow> bool \<Rightarrow> 'a ledger_scheme
     \<Rightarrow> error + (rat \<times> 'a ledger_scheme)" where
  "score_line_against_draw line main6 bonus pb_draw strike_on L =
     (let cost = line_cost line strike_on;
          ns = line_nums line;
          m = main_matches ns main6;
          b = (bonus \<in> set ns);
          division = division_of m b;
          pb_matched = (line_pb line \<noteq> None \<and> line_pb line = Some pb_draw)
      in bind_err (case division of
                     None \<Rightarrow> Inr L
                   | Some d \<Rightarrow> award_lotto d pb_matched L) (\<lambda>L1.
         if strike_on then
           bind_err (strike_hits (take 4 ns) (take 4 main6)) (\<lambda>hits.
           bind_err (if hits \<ge> 1 then award_strike hits L1 else Inr L1) (\<lambda>L2.
             Inr (cost, L2)))
         else Inr (cost, L1)))"

subsection \<open>Python strings\<close>

text \<open>
  Text is a list of 8-bit characters, and the model is of ASCII text: the white space of
  \<^verbatim>\<open>str.strip\<close> and \<^verbatim>\<open>str.split\<close> and the line boundaries of \<^verbatim>\<open>str.splitlines\<close> are
  those below 128, \<^verbatim>\<open>str.upper\<close> changes the letters a..z, and \<^verbatim>\<open>int\<close> reads ASCII
  digits. \<open>py_int\<close> is \<^verbatim>\<open>int(s)\<close> in base 10, \<open>None\<close> where Python raises ValueError:
  white space around the number, one optional sign, digits, single underscores between
  digits. The interpreter's limit on the number of digits is not modelled.
\<close>

definition isspace :: "char \<Rightarrow> bool" where
  "isspace c \<longleftrightarrow>
     c \<in> set [CHR 0x09, CHR 0x0A, CHR 0x0B, CHR 0x0C, CHR 0x0D,
              CHR 0x1C, CHR 0x1D, CHR 0x1E, CHR 0x1F, CHR '' '']"

definition is_linebreak :: "char \<Rightarrow> bool" where
  "is_linebreak c \<longleftrightarrow>
     c \<in> set [CHR 0x0A, CHR 0x0B, CHR 0x0C, CHR 0x0D, CHR 0x1C, CHR 0x1D, CHR 0x1E]"

definition strip :: "string \<Rightarrow> string" where
  "strip s = rev (dropWhile isspace (rev (dropWhile isspace s)))"

fun splitlines_from :: "string \<Rightarrow> string \<Rightarrow> string list" where
  "splitlines_from cur [] = (if cur = [] then [] else [cur])"
| "splitlines_from cur (c # cs) =
     (if c = CHR 0x0D \<and> cs \<noteq> [] \<and> hd cs = CHR 0x0A then cur # splitlines_from [] (tl cs)
      else if is_linebreak c then cur # splitlines_from [] cs
      else splitlines_from (cur @ [c]) cs)"

definition splitlines :: "string \<Rightarrow> string list" where
  "splitlines s = splitlines_from [] s"

fun split_from :: "string \<Rightarrow> string \<Rightarrow> string list" where
  "split_from cur [] = (if cur = [] then [] else [cur])"
| "split_from cur (c # cs) =
     (if isspace c then (if cur = [] then split_from [] cs else cur # split_from [] cs)
      else split_from (cur @ [c]) cs)"

definition split_ws :: "string \<Rightarrow> string list" where
  "split_ws s = split_from [] s"

definition startswith :: "string \<Rightarrow> string \<Rightarrow> bool" where
  "startswith s p \<longleftrightarrow> take (length p) s = p"

definition replace_char :: "char \<Rightarrow> char \<Rightarrow> string \<Rightarrow> string" where
  "replace_char a b s = map (\<lambda>c. if c = a then b else c) s"

definition upper_char :: "char \<Rightarrow> char" where
  "upper_char c =
     (case map_of (zip ''abcdefghijklmnopqrstuvwxyz'' ''ABCDEFGHIJKLMNOPQRSTUVWXYZ'') c of
        None \<Rightarrow> c | Some u \<Rightarrow> u)"

definition upper :: "string \<Rightarrow> string" where
  "upper s = map upper_char s"

definition isdigit :: "char \<Rightarrow> bool" where
  "isdigit c \<longleftrightarrow> c \<in> set ''0123456789''"

definition digit_val :: "char \<Rightarrow> nat" where
  "digit_val c = length (takeWhile (\<lambda>d. d \<noteq> c) ''0123456789'')"

fun parse_digits :: "nat \<Rightarrow> string \<Rightarrow> nat option" where
  "parse_digits acc [] = Some acc"
| "parse_digits acc [c] = (if isdigit c then Some (10 * acc + digit_val c) else None)"
| "parse_digits acc (c # d # ds) =
     (if isdigit c then parse_digits (10 * acc + digit_val c) (d # ds)
      else if c = CHR ''_'' \<and> isdigit d then parse_digits (10 * acc + digit_val d) ds
      else None)"

definition parse_unsigned :: "string \<Rightarrow> nat option" where
  "parse_unsigned s =
     (case s of [] \<Rightarrow> None
      | c # cs \<Rightarrow> if isdigit c then parse_digits (digit_val c) cs else None)"

definition py_int :: "string \<Rightarrow> int option" where
  "py_int s =
     (case strip s of [] \<Rightarrow> None
      | c # cs \<Rightarrow>
          if c = CHR ''-'' then map_option (\<lambda>n. - int n) (parse_unsigned cs)
          else if c = CHR ''+'' then map_option int (parse_unsigned cs)
          else map_option int (parse_unsigned (c # cs)))"

subsection \<open>\<^verbatim>\<open>parse_ticket_lines\<close> and \<^verbatim>\<open>add_ticket_line\<close>\<close>

text \<open>
  \<open>scan_tokens\<close> is the \<^verbatim>\<open>while i < len(tokens)\<close> loop, on the tokens from index
  \<open>i\<close> on; \<open>line_tokens\<close> is the part before the first tab, split at white space, commas
  and bars; \<open>parse_line\<close> is one round of the \<^verbatim>\<open>for raw in lines\<close> loop, \<open>None\<close> where
  the loop continues without appending. \<open>text_get\<close> is \<^verbatim>\<open>ticket_text.get("1.0", "end")\<close>:
  a Tk text widget returns its content followed by a newline. \<open>z2\<close> is
  \<^verbatim>\<open>f"{n:02d}"\<close>, \<open>join\<close> is \<^verbatim>\<open>sep.join(xs)\<close>.
\<close>

definition after_eq :: "string \<Rightarrow> string" where
  "after_eq tok = tl (dropWhile (\<lambda>c. c \<noteq> CHR ''='') tok)"

fun scan_tokens :: "string list \<Rightarrow> int list \<Rightarrow> int option \<Rightarrow> int list \<times> int option" where
  "scan_tokens [] nums pb = (nums, pb)"
| "scan_tokens (t # ts) nums pb =
     (let tok = upper t
      in if startswith tok ''PB'' \<and> tok = ''PB'' \<and> ts \<noteq> [] then
           (case py_int (hd ts) of
              Some v \<Rightarrow> scan_tokens (tl ts) nums (Some v)
            | None \<Rightarrow> scan_tokens (tl ts) nums pb)
         else if startswith tok ''PB'' \<and> CHR ''='' \<in> set tok then
           scan_tokens ts nums (case py_int (after_eq tok) of Some v \<Rightarrow> Some v | None \<Rightarrow> pb)
         else
           (case py_int tok of
              Some v \<Rightarrow> scan_tokens ts (nums @ [v]) pb
            | None \<Rightarrow> scan_tokens ts nums pb))"

definition line_tokens :: "string \<Rightarrow> string list" where
  "line_tokens s =
     (let left = takeWhile (\<lambda>c. c \<noteq> CHR 0x09) s
      in split_ws (replace_char CHR '','' CHR '' '' (replace_char CHR ''|'' CHR '' '' left)))"

definition parse_line :: "string \<Rightarrow> ticket_line option" where
  "parse_line raw =
     (let s = strip raw
      in if s = [] \<or> startswith s ''#'' then None
         else
           (case scan_tokens (line_tokens s) [] None of
              (nums, pb) \<Rightarrow>
                let nums' = take 6 (filter (\<lambda>n. 1 \<le> n \<and> n \<le> 40) nums)
                in if length nums' < 6 then None
                   else Some \<lparr>line_nums = nums',
                              line_pb = (case pb of None \<Rightarrow> None
                                         | Some p \<Rightarrow> if 1 \<le> p \<and> p \<le> 10 then Some p else None)\<rparr>))"

definition text_get :: "string \<Rightarrow> string" where
  "text_get content = content @ [CHR 0x0A]"

definition parse_ticket_lines :: "string \<Rightarrow> ticket_line list" where
  "parse_ticket_lines content =
     List.map_filter parse_line (splitlines (strip (text_get content)))"

definition z2 :: "int \<Rightarrow> string" where
  "z2 n = (if 0 \<le> n \<and> n < 10 then CHR ''0'' # str_int n else str_int n)"

fun join :: "string \<Rightarrow> string list \<Rightarrow> string" where
  "join sep [] = []"
| "join sep [x] = x"
| "join sep (x # y # ys) = x @ sep @ join sep (y # ys)"

subsection \<open>The program state and the callbacks\<close>

text \<open>
  The global variables of the program, with the two tallies as the ledger part. The
  texts of the display labels are not modelled, except for the status line (one
  constructor per message) and the labels of the last draw (\<open>last_draw\<close>, \<open>None\<close> when
  they are blank). \<open>rng_calls\<close> counts the calls made to the random source.
  \<open>running\<close> and \<open>after_id\<close> are the two entries of the dictionary \<^verbatim>\<open>state\<close>;
  a missing entry is \<open>False\<close> and \<open>None\<close>.
\<close>

datatype status =
    Ready
  | NoValidLines
  | DrawDone nat rat rat
  | AddedQuickPicks
  | SystemProduced int "int list" int
  | ClearedBaseAndTicket
  | BaseNumbersSet "int list"
  | Paused
  | ResetComplete

record app = ledger +
  ticket_text :: string
  spend :: rat
  returns :: rat
  draw_number :: int
  speed_var :: int
  powerball_var :: bool
  strike_var :: bool
  base_numbers_var :: string
  V :: "int list"
  running :: bool
  after_id :: "string option"
  status_var :: status
  last_draw :: "(int \<times> int list \<times> int \<times> int) option"
  rng_calls :: nat

definition add_ticket_line :: "int list \<Rightarrow> int option \<Rightarrow> app \<Rightarrow> app" where
  "add_ticket_line nums pb s =
     (let left0 = join '' '' (map z2 nums);
          left = (case pb of None \<Rightarrow> left0 | Some p \<Rightarrow> left0 @ '' | PB '' @ z2 p)
      in if strike_var s then
           let right = join '' '' (map z2 (take 4 nums))
           in s\<lparr>ticket_text := ticket_text s @ left @ [CHR 0x09] @ right @ [CHR 0x0A]\<rparr>
         else s\<lparr>ticket_text := ticket_text s @ left @ [CHR 0x0A]\<rparr>)"

definition clear_ticket :: "app \<Rightarrow> app" where
  "clear_ticket s = s\<lparr>ticket_text := []\<rparr>"

definition set_status :: "status \<Rightarrow> app \<Rightarrow> app" where
  "set_status msg s = s\<lparr>status_var := msg\<rparr>"

definition refresh_paid_labels :: "app \<Rightarrow> app" where
  "refresh_paid_labels s = s\<lparr>returns := sum_list (dict_values (paid s))\<rparr>"

fun score_all ::
  "ticket_line list \<Rightarrow> int list \<Rightarrow> int \<Rightarrow> int \<Rightarrow> bool \<Rightarrow> rat \<Rightarrow> 'a ledger_scheme
     \<Rightarrow> error + (rat \<times> 'a ledger_scheme)" where
  "score_all [] main6 bonus pb_draw strike_on total_cost L = Inr (total_cost, L)"
| "score_all (line # lines) main6 bonus pb_draw strike_on total_cost L =
     (case score_line_against_draw line main6 bonus pb_draw strike_on L of
        Inl e \<Rightarrow> Inl e
      | Inr (cost, L') \<Rightarrow> score_all lines main6 bonus pb_draw strike_on (total_cost + cost) L')"

definition do_draw_once :: "rng_oracle \<Rightarrow> app \<Rightarrow> error + app" where
  "do_draw_once R s =
     (let lines = parse_ticket_lines (ticket_text s)
      in if lines = [] then Inr (set_status NoValidLines s)
         else
           let s1 = s\<lparr>draw_number := draw_number s + 1\<rparr>
           in (case draw_lotto R (rng_calls s1) of
                 Inl e \<Rightarrow> Inl e
               | Inr ((main6, bonus, pb), n') \<Rightarrow>
                   let s2 = s1\<lparr>rng_calls := n',
                               last_draw := Some (draw_number s1, main6, bonus, pb)\<rparr>
                   in (case score_all lines main6 bonus pb (strike_var s2) 0 s2 of
                         Inl e \<Rightarrow> Inl e
                       | Inr (total_cost, s3) \<Rightarrow>
                           let s4 = refresh_paid_labels (s3\<lparr>spend := spend s3 + total_cost\<rparr>)
                           in Inr (set_status
                                     (DrawDone (length lines) total_cost (returns s4 - spend s4))
                                     s4))))"

definition on_reset :: "app \<Rightarrow> app" where
  "on_reset s =
     refresh_paid_labels
       (s\<lparr>running := False, after_id := None,
          ticket_text := [],
          stats := map (\<lambda>(k, v). (k, 0)) (stats s),
          paid := map (\<lambda>(k, v). (k, 0)) (paid s),
          spend := 0, returns := 0,
          speed_var := DEFAULT_SPEED, powerball_var := False, strike_var := False,
          base_numbers_var := [], V := [],
          last_draw := None, draw_number := 0,
          status_var := ResetComplete\<rparr>)"

definition initial_app :: app where
  "initial_app =
     refresh_paid_labels
       (init_vars
          \<lparr>stats = [], paid = [], ticket_text = [], spend = 0, returns = 0, draw_number = 0,
           speed_var = DEFAULT_SPEED, powerball_var = False, strike_var = False,
           base_numbers_var = [], V = [], running = False, after_id = None,
           status_var = Ready, last_draw = None, rng_calls = 0\<rparr>)"

fun combinations :: "'a list \<Rightarrow> nat \<Rightarrow> 'a list list" where
  "combinations xs 0 = [[]]"
| "combinations [] (Suc r) = []"
| "combinations (x # xs) (Suc r) = map ((#) x) (combinations xs r) @ combinations xs (Suc r)"

definition index_end :: "string \<Rightarrow> int" where
  "index_end content = int (length (filter (\<lambda>c. c = CHR 0x0A) content)) + 2"

fun wheel_lines :: "rng_oracle \<Rightarrow> int list list \<Rightarrow> app \<Rightarrow> app" where
  "wheel_lines R [] s = s"
| "wheel_lines R (comb # combs) s =
     (if powerball_var s then
        wheel_lines R combs
          (add_ticket_line comb (Some (randrange_out R (rng_calls s) 1 11))
             (s\<lparr>rng_calls := rng_calls s + 1\<rparr>))
      else wheel_lines R combs (add_ticket_line comb None s))"

definition system_wheel :: "int \<Rightarrow> rng_oracle \<Rightarrow> app \<Rightarrow> error + app" where
  "system_wheel m R s =
     (case (if int (length (V s)) = m then Inr (V s, s)
            else (case rng_sample R (rng_calls s) [1..40] m of
                    Inl e \<Rightarrow> Inl e
                  | Inr smp \<Rightarrow> Inr (sort smp, s\<lparr>rng_calls := rng_calls s + 1\<rparr>))) of
        Inl e \<Rightarrow> Inl e
      | Inr (base, s1) \<Rightarrow>
          let count_before = index_end (ticket_text s1);
              s2 = wheel_lines R (combinations base 6) s1;
              added = index_end (ticket_text s2) - count_before
          in Inr (set_status (SystemProduced m base added) s2))"

fun qp_lines :: "nat \<Rightarrow> rng_oracle \<Rightarrow> app \<Rightarrow> error + app" where
  "qp_lines 0 R s = Inr s"
| "qp_lines (Suc k) R s =
     (case rng_sample R (rng_calls s) [1..40] 6 of
        Inl e \<Rightarrow> Inl e
      | Inr smp \<Rightarrow>
          let nums = sort smp; s1 = s\<lparr>rng_calls := rng_calls s + 1\<rparr>
          in if powerball_var s1 then
               qp_lines k R
                 (add_ticket_line nums (Some (randrange_out R (rng_calls s1) 1 11))
                    (s1\<lparr>rng_calls := rng_calls s1 + 1\<rparr>))
             else qp_lines k R (add_ticket_line nums None s1))"

definition qp10 :: "rng_oracle \<Rightarrow> app \<Rightarrow> error + app" where
  "qp10 R s = (case qp_lines 10 R s of Inl e \<Rightarrow> Inl e | Inr s' \<Rightarrow> Inr (set_status AddedQuickPicks s'))"

definition set_base_numbers :: "string option \<Rightarrow> app \<Rightarrow> app" where
  "set_base_numbers answer s =
     (case answer of
        None \<Rightarrow> s
      | Some str \<Rightarrow>
          if str = [] then s
          else
            let parts = split_ws (replace_char CHR '','' CHR '' '' str)
            in if \<exists>p \<in> set parts. py_int p = None then s
               else
                 let vals = sort (remdups (filter (\<lambda>n. 1 \<le> n \<and> n \<le> 40)
                                             (List.map_filter py_int parts)))
                 in if vals = [] then s
                    else set_status (BaseNumbersSet vals)
                           (s\<lparr>V := vals,
                              base_numbers_var := ''Base: '' @ join '' '' (map z2 vals)\<rparr>))"

definition clear_wheel_and_base :: "app \<Rightarrow> app" where
  "clear_wheel_and_base s =
     set_status ClearedBaseAndTicket (clear_ticket (s\<lparr>V := [], base_numbers_var := []\<rparr>))"

text \<open>
  The timer callbacks. \<open>draw_batch k\<close> is the loop \<^verbatim>\<open>for _ in range(batch): do_draw_once()\<close>.
  \<open>schedule_next\<close> takes the identifier that \<^verbatim>\<open>root.after\<close> returns for the timer it
  starts; the delay it asks for, \<open>tick_delay\<close>, is not part of the state: when the timer
  fires, Tk calls \<open>schedule_next\<close> again. The identifiers of Tk are non-empty strings, so
  \<^verbatim>\<open>if aid:\<close> holds of a pending timer and \<^verbatim>\<open>pause_autorun\<close> cancels it.
\<close>

fun draw_batch :: "nat \<Rightarrow> rng_oracle \<Rightarrow> app \<Rightarrow> error + app" where
  "draw_batch 0 R s = Inr s"
| "draw_batch (Suc k) R s =
     (case do_draw_once R s of Inl e \<Rightarrow> Inl e | Inr s' \<Rightarrow> draw_batch k R s')"

definition tick_delay :: "int \<Rightarrow> int" where
  "tick_delay sp = (if sp \<le> 1000 then max 1 (1000 div sp) else 1)"

definition schedule_next :: "rng_oracle \<Rightarrow> string \<Rightarrow> app \<Rightarrow> error + app" where
  "schedule_next R aid s =
     (if \<not> running s then Inr s
      else
        let sp = max 1 (speed_var s)
        in if sp \<le> 1000 then
             (case do_draw_once R s of
                Inl e \<Rightarrow> Inl e
              | Inr s' \<Rightarrow> Inr (s'\<lparr>after_id := Some aid\<rparr>))
           else
             (case draw_batch (nat (max 1 (sp div 1000))) R s of
                Inl e \<Rightarrow> Inl e
              | Inr s' \<Rightarrow> Inr (s'\<lparr>after_id := Some aid\<rparr>)))"

definition start_autorun :: "rng_oracle \<Rightarrow> string \<Rightarrow> app \<Rightarrow> error + app" where
  "start_autorun R aid s =
     (if running s then Inr s else schedule_next R aid (s\<lparr>running := True\<rparr>))"

definition pause_autorun :: "app \<Rightarrow> app" where
  "pause_autorun s = set_status Paused (s\<lparr>running := False, after_id := None\<rparr>)"

subsection \<open>Observing the tallies\<close>

text \<open>
  What the properties below read off a ledger. \<open>tally d k\<close> is the value stored under
  \<open>k\<close> (0 for a code that is not there); \<open>hits_gained L L' ks\<close> and
  \<open>paid_gained L L' ks\<close> list, for the codes \<open>ks\<close>, how much the hit counts and the
  amounts paid grew from \<open>L\<close> to \<open>L'\<close>; \<open>one_at n i v\<close> is the list of \<open>n\<close> zeros
  with \<open>v\<close> at position \<open>i\<close>. \<open>ledger_ok\<close> says the two dictionaries have the keys
  \<open>init_vars\<close> gives them, \<open>line_ok\<close> and \<open>draw_ok\<close> that a ticket line and a draw
  are as the data model describes them.
\<close>

definition tally :: "'v::zero dict \<Rightarrow> string \<Rightarrow> 'v" where
  "tally d k = (case map_of d k of None \<Rightarrow> 0 | Some v \<Rightarrow> v)"

definition ledger_ok :: "'a ledger_scheme \<Rightarrow> bool" where
  "ledger_ok L \<longleftrightarrow> map fst (stats L) = codes \<and> map fst (paid L) = codes"

definition empty_ledger :: ledger where
  "empty_ledger = \<lparr>stats = [], paid = []\<rparr>"

definition lotto_codes :: "string list" where
  "lotto_codes = [''D1'', ''D2'', ''D3'', ''D4'', ''D5'', ''D6'', ''D7'']"

definition strike_codes :: "string list" where
  "strike_codes = [''S1'', ''S2'', ''S3'', ''S4'']"

definition hits_gained :: "'a ledger_scheme \<Rightarrow> 'a ledger_scheme \<Rightarrow> string list \<Rightarrow> int list" where
  "hits_gained L L' ks = map (\<lambda>k. tally (stats L') k - tally (stats L) k) ks"

definition paid_gained :: "'a ledger_scheme \<Rightarrow> 'a ledger_scheme \<Rightarrow> string list \<Rightarrow> rat list" where
  "paid_gained L L' ks = map (\<lambda>k. tally (paid L') k - tally (paid L) k) ks"

definition one_at :: "nat \<Rightarrow> nat \<Rightarrow> 'v \<Rightarrow> 'v::zero list" where
  "one_at n i v = (replicate n 0)[i := v]"

definition line_ok :: "ticket_line \<Rightarrow> bool" where
  "line_ok line \<longleftrightarrow>
     length (line_nums line) = 6 \<and> distinct (line_nums line) \<and>
     (\<forall>n \<in> set (line_nums line). 1 \<le> n \<and> n \<le> 40) \<and>
     (case line_pb line of None \<Rightarrow> True | Some p \<Rightarrow> 1 \<le> p \<and> p \<le> 10)"

definition draw_ok :: "int list \<Rightarrow> int \<Rightarrow> int \<Rightarrow> bool" where
  "draw_ok main6 bonus pb_draw \<longleftrightarrow>
     length main6 = 6 \<and> distinct (main6 @ [bonus]) \<and>
     (\<forall>n \<in> set (main6 @ [bonus]). 1 \<le> n \<and> n \<le> 40) \<and> 1 \<le> pb_draw \<and> pb_draw \<le> 10"

definition division_vec :: "int option \<Rightarrow> 'v \<Rightarrow> 'v::zero list" where
  "division_vec division v =
     (case division of None \<Rightarrow> replicate 7 0 | Some d \<Rightarrow> one_at 7 (nat (d - 1)) v)"

definition strike_vec :: "int \<Rightarrow> 'v \<Rightarrow> 'v::zero list" where
  "strike_vec hits v = (if hits \<ge> 1 then one_at 4 (nat (hits - 1)) v else replicate 4 0)"

subsection \<open>Notions the properties use\<close>

text \<open>
  \<open>collected_numbers raw\<close> is the list \<^verbatim>\<open>[n for n in nums if 1 <= n <= 40]\<close> that
  \<open>parse_line\<close> builds for a raw line, before it is cut to six. \<open>digits_only\<close> holds
  for a non-empty text of decimal digits.
\<close>

definition collected_numbers :: "string \<Rightarrow> int list" where
  "collected_numbers raw =
     filter (\<lambda>n. 1 \<le> n \<and> n \<le> 40) (fst (scan_tokens (line_tokens (strip raw)) [] None))"

definition digits_only :: "string \<Rightarrow> bool" where
  "digits_only t \<longleftrightarrow> t \<noteq> [] \<and> (\<forall>c \<in> set t. isdigit c)"

text \<open>
  \<open>grows L L'\<close>: \<open>L'\<close> is \<open>L\<close> with new tallies under the same prize codes, none
  smaller than before. \<open>ledger_inv\<close>: the tallies have the prize codes of \<open>init_vars\<close>
  and the returns are the sum of the amounts paid.
\<close>

definition grows :: "'a ledger_scheme \<Rightarrow> 'a ledger_scheme \<Rightarrow> bool" where
  "grows L L' \<longleftrightarrow>
     (\<exists>X Y. L' = L\<lparr>stats := X, paid := Y\<rparr>) \<and> ledger_ok L' \<and>
     (\<forall>k. tally (stats L) k \<le> tally (stats L') k) \<and>
     (\<forall>k. tally (paid L) k \<le> tally (paid L') k)"

definition ledger_inv :: "app \<Rightarrow> bool" where
  "ledger_inv s \<longleftrightarrow> ledger_ok s \<and> returns s = sum_list (dict_values (paid s))"

text \<open>
  The states the program can be in between two callbacks: the state at start, and what
  a callback or an edit by the user makes of such a state. The user can type any text
  into the ticket and set the three controls to any value. START and PAUSE are the
  callbacks \<open>start_autorun\<close> and \<open>pause_autorun\<close>; while a timer is pending it can fire,
  which calls \<open>schedule_next\<close>.
\<close>

inductive reachable :: "rng_oracle \<Rightarrow> app \<Rightarrow> bool" for R :: rng_oracle where
  start: "reachable R initial_app"
| draw: "reachable R s \<Longrightarrow> do_draw_once R s = Inr s' \<Longrightarrow> reachable R s'"
| reset: "reachable R s \<Longrightarrow> reachable R (on_reset s)"
| quick_picks: "reachable R s \<Longrightarrow> qp10 R s = Inr s' \<Longrightarrow> reachable R s'"
| wheel: "reachable R s \<Longrightarrow> system_wheel m R s = Inr s' \<Longrightarrow> reachable R s'"
| base_numbers: "reachable R s \<Longrightarrow> reachable R (set_base_numbers answer s)"
| clear: "reachable R s \<Longrightarrow> reachable R (clear_wheel_and_base s)"
| edit_ticket: "reachable R s \<Longrightarrow> reachable R (s\<lparr>ticket_text := t\<rparr>)"
| set_controls:
    "reachable R s \<Longrightarrow>
     reachable R (s\<lparr>speed_var := sp, powerball_var := pv, strike_var := sv\<rparr>)"
| start_run: "reachable R s \<Longrightarrow> start_autorun R aid s = Inr s' \<Longrightarrow> reachable R s'"
| timer_tick:
    "reachable R s \<Longrightarrow> after_id s \<noteq> None \<Longrightarrow> schedule_next R aid s = Inr s' \<Longrightarrow>
     reachable R s'"
| pause: "reachable R s \<Longrightarrow> reachable R (pause_autorun s)"

subsection \<open>Concrete inputs\<close>

text \<open>
  For running the model: the ledger at program start, three ticket lines, a state with
  one line typed in and Strike on, the state that START makes of it with the random
  source below, and a random source that satisfies the contract (it
  leaves a shuffled list as it is, returns the lower bound of a range and the first \<open>k\<close>
  elements of a population).
\<close>

definition ledger0 :: ledger where
  "ledger0 = init_vars empty_ledger"

definition line_a :: ticket_line where
  "line_a = \<lparr>line_nums = [1, 2, 3, 40, 39, 38], line_pb = None\<rparr>"

definition line_b :: ticket_line where
  "line_b = \<lparr>line_nums = [1, 2, 3, 4, 5, 6], line_pb = Some 3\<rparr>"

definition line_c :: ticket_line where
  "line_c = \<lparr>line_nums = [6, 5, 4, 3, 2, 1], line_pb = None\<rparr>"

definition one_line_app :: app where
  "one_line_app = initial_app\<lparr>ticket_text := ''01 02 03 04 05 06 | PB 01'', strike_var := True\<rparr>"

definition running_app :: app where
  "running_app =
     \<lparr>stats = [(''D1'', 10), (''D2'', 0), (''D3'', 0), (''D4'', 0), (''D5'', 0),
               (''D6'', 0), (''D7'', 0), (''S1'', 0), (''S2'', 0), (''S3'', 0), (''S4'', 10)],
      paid = [(''D1'', 300000000), (''D2'', 0), (''D3'', 0), (''D4'', 0), (''D5'', 0),
              (''D6'', 0), (''D7'', 0), (''S1'', 0), (''S2'', 0), (''S3'', 0),
              (''S4'', 10000000)],
      ticket_text = ''01 02 03 04 05 06 | PB 01'', spend = 25, returns = 310000000,
      draw_number = 10, speed_var = 10000, powerball_var = False, strike_var = True,
      base_numbers_var = [], V = [], running = True, after_id = Some ''after#1'',
      status_var = DrawDone 1 2.5 309999975,
      last_draw = Some (10, [1, 2, 3, 4, 5, 6], 7, 1), rng_calls = 20\<rparr>"

definition id_rng :: rng_oracle where
  "id_rng = \<lparr>shuffle_out = (\<lambda>n xs. xs), randrange_out = (\<lambda>n a b. a),
              sample_out = (\<lambda>n xs k. take k xs)\<rparr>"

section \<open>Properties\<close>

subsection \<open>The random source\<close>

lemma mset_take_sub: "mset (take k xs) \<subseteq># mset xs"
proof -
  have "mset xs = mset (take k xs) + mset (drop k xs)"
    by (metis append_take_drop_id mset_append)
  then show ?thesis by simp
qed

lemma id_rng_ok: "rng_ok id_rng"
  unfolding rng_ok_def id_rng_def
  by (simp add: mset_take_sub)

lemma randrange_1_11:
  assumes "rng_ok R"
  shows "1 \<le> randrange_out R n 1 11 \<and> randrange_out R n 1 11 \<le> 10"
proof -
  have "(1::int) < 11" by simp
  with assms have "1 \<le> randrange_out R n 1 11 \<and> randrange_out R n 1 11 < 11"
    unfolding rng_ok_def by blast
  then show ?thesis by simp
qed

subsection \<open>The draw\<close>

lemma shuffled_pool:
  assumes "mset balls = mset [1..40::int]"
  shows "length balls = 40" "distinct balls" "set balls = {1..40}"
proof -
  show "length balls = 40"
    using mset_eq_length [OF assms] by (simp del: upto_rec_numeral)
  show "distinct balls"
    using mset_eq_imp_distinct_iff [OF assms] by (simp del: upto_rec_numeral)
  show "set balls = {1..40}"
    using mset_eq_setD [OF assms] by (simp del: upto_rec_numeral)
qed

lemma take7:
  assumes "length balls = 40"
  shows "take 6 balls @ [balls ! 6] = take 7 balls"
proof -
  have "take (Suc 6) balls = take 6 balls @ [balls ! 6]"
    using assms by (intro take_Suc_conv_app_nth) simp
  then show ?thesis by simp
qed

lemma draw_lotto_eq:
  assumes "rng_ok R"
  shows "draw_lotto R n =
           Inr ((take 6 (shuffle_out R n [1..40]), shuffle_out R n [1..40] ! 6,
                 randrange_out R (n + 1) 1 11), n + 2)"
proof -
  define balls where "balls = shuffle_out R n [1..40]"
  have m: "mset balls = mset [1..40]"
    using assms by (simp add: rng_ok_def balls_def del: upto_rec_numeral)
  show ?thesis
    unfolding draw_lotto_def balls_def [symmetric]
    by (simp add: py_index_def bind_err_def shuffled_pool(1) [OF m])
qed

lemma draw_lotto_id_rng:
  "draw_lotto id_rng n = Inr (([1, 2, 3, 4, 5, 6], 7, 1), n + 2)"
proof -
  have "take 6 [1..40::int] = [1, 2, 3, 4, 5, 6]" "[1..40::int] ! 6 = 7"
    by code_simp+
  then show ?thesis
    by (simp add: draw_lotto_eq [OF id_rng_ok]) (simp add: id_rng_def)
qed

text \<open>
  C5. Whatever permutation of the pool 1..40 the shuffle leaves and whatever value
  \<^verbatim>\<open>randrange(1, 11)\<close> returns, \<open>draw_lotto\<close> returns without error, after two calls
  to the random source: six main numbers, distinct and in 1..40; a bonus in 1..40 that is
  none of the six; and a Powerball in 1..10 that is the value of the separate
  \<^verbatim>\<open>randrange\<close> call, whatever the shuffle was. Some random source makes the Powerball
  equal to a main number.
\<close>

theorem draw_lotto_wellformed:
  assumes "rng_ok R"
  shows "(\<exists>main6 bonus pb.
            draw_lotto R n = Inr ((main6, bonus, pb), n + 2) \<and>
            length main6 = 6 \<and> distinct (main6 @ [bonus]) \<and>
            (\<forall>x \<in> set (main6 @ [bonus]). 1 \<le> x \<and> x \<le> 40) \<and>
            pb = randrange_out R (n + 1) 1 11 \<and> 1 \<le> pb \<and> pb \<le> 10) \<and>
         (\<exists>R' main6 bonus pb k.
            rng_ok R' \<and> draw_lotto R' 0 = Inr ((main6, bonus, pb), k) \<and> pb \<in> set main6)"
proof
  define balls where "balls = shuffle_out R n [1..40]"
  have m: "mset balls = mset [1..40]"
    using assms by (simp add: rng_ok_def balls_def del: upto_rec_numeral)
  note p = shuffled_pool [OF m]
  have t: "take 6 balls @ [balls ! 6] = take 7 balls" by (rule take7 [OF p(1)])
  have d: "distinct (take 6 balls @ [balls ! 6])"
    unfolding t using p(2) by (rule distinct_take)
  have "set (take 7 balls) \<subseteq> set balls" by (rule set_take_subset)
  then have s: "set (take 6 balls @ [balls ! 6]) \<subseteq> {1..40}" unfolding t p(3) .
  note r = randrange_1_11 [OF assms, of "n + 1"]
  have e: "draw_lotto R n =
             Inr ((take 6 balls, balls ! 6, randrange_out R (n + 1) 1 11), n + 2)"
    unfolding balls_def by (rule draw_lotto_eq [OF assms])
  have l: "length (take 6 balls) = 6" using p(1) by simp
  have q: "\<forall>x \<in> set (take 6 balls @ [balls ! 6]). 1 \<le> x \<and> x \<le> 40" using s by auto
  show "\<exists>main6 bonus pb.
          draw_lotto R n = Inr ((main6, bonus, pb), n + 2) \<and>
          length main6 = 6 \<and> distinct (main6 @ [bonus]) \<and>
          (\<forall>x \<in> set (main6 @ [bonus]). 1 \<le> x \<and> x \<le> 40) \<and>
          pb = randrange_out R (n + 1) 1 11 \<and> 1 \<le> pb \<and> pb \<le> 10"
    using e d q r l by blast
next
  have "draw_lotto id_rng 0 = Inr (([1, 2, 3, 4, 5, 6], 7, 1), 2) \<and> (1::int) \<in> set [1, 2, 3, 4, 5, 6]"
    using draw_lotto_id_rng [of 0] by simp
  with id_rng_ok
  show "\<exists>R' main6 bonus pb k.
          rng_ok R' \<and> draw_lotto R' 0 = Inr ((main6, bonus, pb), k) \<and> pb \<in> set main6"
    by blast
qed

theorem draw_lotto_wellformed_witness:
  "rng_ok id_rng \<and>
   draw_lotto id_rng 5 = Inr (([1, 2, 3, 4, 5, 6], 7, 1), 7) \<and>
   (\<exists>main6 bonus pb.
      draw_lotto id_rng 5 = Inr ((main6, bonus, pb), 5 + 2) \<and>
      length main6 = 6 \<and> distinct (main6 @ [bonus]) \<and>
      (\<forall>x \<in> set (main6 @ [bonus]). 1 \<le> x \<and> x \<le> 40) \<and>
      pb = randrange_out id_rng (5 + 1) 1 11 \<and> 1 \<le> pb \<and> pb \<le> 10)"
  using draw_lotto_wellformed [OF id_rng_ok, of 5] id_rng_ok draw_lotto_id_rng [of 5]
  by simp

subsection \<open>Tallies and awards\<close>

lemma init_vars_empty:
  "init_vars empty_ledger = \<lparr>stats = map (\<lambda>k. (k, 0)) codes, paid = map (\<lambda>k. (k, 0)) codes\<rparr>"
  by (simp add: init_vars_def empty_ledger_def codes_def dict_store_def var_set_def)

lemma str_int_digits:
  "str_int 1 = ''1''" "str_int 2 = ''2''" "str_int 3 = ''3''" "str_int 4 = ''4''"
  "str_int 5 = ''5''" "str_int 6 = ''6''" "str_int 7 = ''7''"
  by (simp_all add: str_int_def str_nat.simps digit_char_def)

lemma keys_var_set [simp]: "map fst (var_set d k v) = map fst d"
  by (induction d) (auto simp: var_set_def)

lemma map_of_var_set:
  "map_of (var_set d k v) k' = (if k' = k then map_option (\<lambda>_. v) (map_of d k) else map_of d k')"
  by (induction d) (auto simp: var_set_def)

lemma tally_var_set:
  "tally (var_set d k v) k' = (if k' = k \<and> k \<in> set (map fst d) then v else tally d k')"
  by (force simp: tally_def map_of_var_set map_of_eq_None_iff split: option.splits dest: map_of_SomeD)

lemma var_get_tally:
  "k \<in> set (map fst d) \<Longrightarrow> var_get d k = Inr (tally d k)"
  by (auto simp: var_get_def tally_def map_of_eq_None_iff split: option.splits)

lemma int_1_7: "1 \<le> (d::int) \<Longrightarrow> d \<le> 7 \<Longrightarrow> d = 1 \<or> d = 2 \<or> d = 3 \<or> d = 4 \<or> d = 5 \<or> d = 6 \<or> d = 7"
  by arith

lemma lotto_code_in: "1 \<le> d \<Longrightarrow> d \<le> 7 \<Longrightarrow> ''D'' @ str_int d \<in> set codes"
  by (drule (1) int_1_7) (auto simp: str_int_digits codes_def)

lemma strike_code_in: "1 \<le> h \<Longrightarrow> h \<le> 4 \<Longrightarrow> ''S'' @ str_int h \<in> set codes"
proof -
  assume "1 \<le> h" "h \<le> 4"
  then have "h = 1 \<or> h = 2 \<or> h = 3 \<or> h = 4" by arith
  then show ?thesis by (auto simp: str_int_digits codes_def)
qed

lemma award_lotto_ok:
  assumes "ledger_ok L" "1 \<le> d" "d \<le> 7"
  shows "award_lotto d pbm L =
           Inr (L\<lparr>stats := var_set (stats L) (''D'' @ str_int d) (tally (stats L) (''D'' @ str_int d) + 1),
                   paid := var_set (paid L) (''D'' @ str_int d)
                             (tally (paid L) (''D'' @ str_int d) +
                              (if pbm then LOTTO_WITH_PB else LOTTO_NO_PB) ! nat (d - 1))\<rparr>)"
proof -
  have k: "''D'' @ str_int d \<in> set (map fst (stats L))" "''D'' @ str_int d \<in> set (map fst (paid L))"
    using assms lotto_code_in [of d] by (simp_all add: ledger_ok_def)
  have i: "py_index (if pbm then LOTTO_WITH_PB else LOTTO_NO_PB) (d - 1) =
             Inr ((if pbm then LOTTO_WITH_PB else LOTTO_NO_PB) ! nat (d - 1))"
    using assms(2,3) by (simp add: py_index_def LOTTO_WITH_PB_def LOTTO_NO_PB_def)
  show ?thesis
    unfolding award_lotto_def Let_def i
    using var_get_tally [OF k(1)] var_get_tally [OF k(2)] by (simp add: bind_err_def)
qed

lemma award_strike_ok:
  assumes "ledger_ok L" "1 \<le> h" "h \<le> 4"
  shows "award_strike h L =
           Inr (L\<lparr>stats := var_set (stats L) (''S'' @ str_int h) (tally (stats L) (''S'' @ str_int h) + 1),
                   paid := var_set (paid L) (''S'' @ str_int h)
                             (tally (paid L) (''S'' @ str_int h) + STRIKE_PAYOUT ! nat (h - 1))\<rparr>)"
proof -
  have k: "''S'' @ str_int h \<in> set (map fst (stats L))" "''S'' @ str_int h \<in> set (map fst (paid L))"
    using assms strike_code_in [of h] by (simp_all add: ledger_ok_def)
  have i: "py_index STRIKE_PAYOUT (h - 1) = Inr (STRIKE_PAYOUT ! nat (h - 1))"
    using assms(2,3) by (simp add: py_index_def STRIKE_PAYOUT_def)
  show ?thesis
    unfolding award_strike_def Let_def i
    using var_get_tally [OF k(1)] var_get_tally [OF k(2)] by (simp add: bind_err_def)
qed

lemma division_of_range: "division_of m b = Some d \<Longrightarrow> 1 \<le> d \<and> d \<le> 7"
  by (auto simp: division_of_def split: if_splits)

lemma strike_hits_ok:
  assumes "4 \<le> length g" "4 \<le> length dr"
  shows "\<exists>h. strike_hits g dr = Inr h \<and> 0 \<le> h \<and> h \<le> 4"
proof -
  have "length (filter (\<lambda>i. g ! i = dr ! i) [0..<4]) \<le> length [0..<4]"
    by (rule length_filter_le)
  then show ?thesis using assms by (simp add: strike_hits_def)
qed

lemma one_at_7:
  "one_at 7 0 v = [v, 0, 0, 0, 0, 0, 0]" "one_at 7 (Suc 0) v = [0, v, 0, 0, 0, 0, 0]"
  "one_at 7 2 v = [0, 0, v, 0, 0, 0, 0]" "one_at 7 3 v = [0, 0, 0, v, 0, 0, 0]"
  "one_at 7 4 v = [0, 0, 0, 0, v, 0, 0]" "one_at 7 5 v = [0, 0, 0, 0, 0, v, 0]"
  "one_at 7 6 v = [0, 0, 0, 0, 0, 0, v]"
  by (simp_all add: one_at_def numeral_eq_Suc)

lemma one_at_4:
  "one_at 4 0 v = [v, 0, 0, 0]" "one_at 4 (Suc 0) v = [0, v, 0, 0]"
  "one_at 4 2 v = [0, 0, v, 0]" "one_at 4 3 v = [0, 0, 0, v]"
  by (simp_all add: one_at_def numeral_eq_Suc)

lemma zeros:
  "replicate 7 z = [z, z, z, z, z, z, z]" "replicate 4 z = [z, z, z, z]"
  by (simp_all add: numeral_eq_Suc)

lemma gained_trans:
  "hits_gained L L2 ks = map2 (+) (hits_gained L L1 ks) (hits_gained L1 L2 ks)"
  "paid_gained L L2 ks = map2 (+) (paid_gained L L1 ks) (paid_gained L1 L2 ks)"
  by (induction ks) (simp_all add: hits_gained_def paid_gained_def)

lemma gained_refl:
  "hits_gained L L ks = replicate (length ks) 0"
  "paid_gained L L ks = replicate (length ks) 0"
  by (induction ks) (simp_all add: hits_gained_def paid_gained_def)

lemma award_lotto_gained:
  assumes "ledger_ok L" "1 \<le> d" "d \<le> 7"
  shows "\<exists>L1. award_lotto d pbm L = Inr L1 \<and> ledger_ok L1 \<and>
           hits_gained L L1 lotto_codes = one_at 7 (nat (d - 1)) 1 \<and>
           paid_gained L L1 lotto_codes =
             one_at 7 (nat (d - 1)) ((if pbm then LOTTO_WITH_PB else LOTTO_NO_PB) ! nat (d - 1)) \<and>
           hits_gained L L1 strike_codes = replicate 4 0 \<and>
           paid_gained L L1 strike_codes = replicate 4 0"
proof -
  note e = award_lotto_ok [OF assms, of pbm]
  have ks: "map fst (stats L) = codes" "map fst (paid L) = codes"
    using assms(1) by (simp_all add: ledger_ok_def)
  from int_1_7 [OF assms(2,3)] show ?thesis
    unfolding e
    by (elim disjE)
       (simp_all add: ledger_ok_def ks hits_gained_def paid_gained_def lotto_codes_def
          strike_codes_def tally_var_set str_int_digits codes_def one_at_7 zeros)
qed

lemma award_strike_gained:
  assumes "ledger_ok L" "1 \<le> h" "h \<le> 4"
  shows "\<exists>L1. award_strike h L = Inr L1 \<and> ledger_ok L1 \<and>
           hits_gained L L1 strike_codes = one_at 4 (nat (h - 1)) 1 \<and>
           paid_gained L L1 strike_codes = one_at 4 (nat (h - 1)) (STRIKE_PAYOUT ! nat (h - 1)) \<and>
           hits_gained L L1 lotto_codes = replicate 7 0 \<and>
           paid_gained L L1 lotto_codes = replicate 7 0"
proof -
  note e = award_strike_ok [OF assms]
  have ks: "map fst (stats L) = codes" "map fst (paid L) = codes"
    using assms(1) by (simp_all add: ledger_ok_def)
  from assms(2,3) have "h = 1 \<or> h = 2 \<or> h = 3 \<or> h = 4" by arith
  then show ?thesis
    unfolding e
    by (elim disjE)
       (simp_all add: ledger_ok_def ks hits_gained_def paid_gained_def lotto_codes_def
          strike_codes_def tally_var_set str_int_digits codes_def one_at_4 zeros)
qed

lemma lotto_part:
  assumes "ledger_ok L"
  shows "\<exists>L1. (case division_of m b of None \<Rightarrow> Inr L | Some d \<Rightarrow> award_lotto d pbm L) = Inr L1 \<and>
           ledger_ok L1 \<and>
           hits_gained L L1 lotto_codes = division_vec (division_of m b) 1 \<and>
           paid_gained L L1 lotto_codes =
             (case division_of m b of None \<Rightarrow> replicate 7 0
              | Some d \<Rightarrow> one_at 7 (nat (d - 1))
                            ((if pbm then LOTTO_WITH_PB else LOTTO_NO_PB) ! nat (d - 1))) \<and>
           hits_gained L L1 strike_codes = replicate 4 0 \<and>
           paid_gained L L1 strike_codes = replicate 4 0"
proof (cases "division_of m b")
  case None
  then show ?thesis
    using assms by (simp add: gained_refl lotto_codes_def strike_codes_def division_vec_def zeros)
next
  case (Some d)
  with division_of_range [OF Some] award_lotto_gained [OF assms, of d pbm]
  show ?thesis by (simp add: division_vec_def)
qed

lemma strike_part:
  assumes "ledger_ok L" "0 \<le> h" "h \<le> 4"
  shows "\<exists>L2. (if h \<ge> 1 then award_strike h L else Inr L) = Inr L2 \<and> ledger_ok L2 \<and>
           hits_gained L L2 strike_codes = strike_vec h 1 \<and>
           paid_gained L L2 strike_codes = strike_vec h (STRIKE_PAYOUT ! nat (h - 1)) \<and>
           hits_gained L L2 lotto_codes = replicate 7 0 \<and>
           paid_gained L L2 lotto_codes = replicate 7 0"
proof (cases "h \<ge> 1")
  case True
  with award_strike_gained [OF assms(1) True assms(3)] show ?thesis
    by (simp add: strike_vec_def)
next
  case False
  then show ?thesis
    using assms by (simp add: gained_refl lotto_codes_def strike_codes_def strike_vec_def zeros)
qed

lemma map2_add_zeros:
  fixes xs :: "'v::monoid_add list"
  shows "length xs = n \<Longrightarrow> map2 (+) xs (replicate n 0) = xs"
    and "length xs = n \<Longrightarrow> map2 (+) (replicate n 0) xs = xs"
  by (induction xs arbitrary: n) auto

lemma length_division_vec [simp]: "length (division_vec dv v) = 7"
  by (simp add: division_vec_def one_at_def split: option.splits)

lemma length_strike_vec [simp]: "length (strike_vec h v) = 4"
  by (simp add: strike_vec_def one_at_def)

lemma score_line_gained:
  assumes "ledger_ok L" "4 \<le> length (line_nums line)" "4 \<le> length main6"
  shows "\<exists>L'. score_line_against_draw line main6 bonus pb_draw strike_on L =
                 Inr (line_cost line strike_on, L') \<and> ledger_ok L' \<and>
           hits_gained L L' lotto_codes =
             division_vec (division_of (main_matches (line_nums line) main6)
                             (bonus \<in> set (line_nums line))) 1 \<and>
           paid_gained L L' lotto_codes =
             (case division_of (main_matches (line_nums line) main6)
                     (bonus \<in> set (line_nums line)) of
                None \<Rightarrow> replicate 7 0
              | Some d \<Rightarrow> one_at 7 (nat (d - 1))
                   ((if line_pb line = Some pb_draw then LOTTO_WITH_PB else LOTTO_NO_PB)
                      ! nat (d - 1))) \<and>
           (\<exists>h. strike_hits (take 4 (line_nums line)) (take 4 main6) = Inr h \<and>
                 0 \<le> h \<and> h \<le> 4 \<and>
                 hits_gained L L' strike_codes =
                   (if strike_on then strike_vec h 1 else replicate 4 0) \<and>
                 paid_gained L L' strike_codes =
                   (if strike_on then strike_vec h (STRIKE_PAYOUT ! nat (h - 1))
                    else replicate 4 0))"
proof -
  define m where "m = main_matches (line_nums line) main6"
  define b where "b = (bonus \<in> set (line_nums line))"
  define pbm where "pbm = (line_pb line \<noteq> None \<and> line_pb line = Some pb_draw)"
  have pbm: "pbm = (line_pb line = Some pb_draw)" by (auto simp: pbm_def)
  obtain L1 where L1:
    "(case division_of m b of None \<Rightarrow> Inr L | Some d \<Rightarrow> award_lotto d pbm L) = Inr L1"
    "ledger_ok L1"
    "hits_gained L L1 lotto_codes = division_vec (division_of m b) 1"
    "paid_gained L L1 lotto_codes =
       (case division_of m b of None \<Rightarrow> replicate 7 0
        | Some d \<Rightarrow> one_at 7 (nat (d - 1))
                      ((if pbm then LOTTO_WITH_PB else LOTTO_NO_PB) ! nat (d - 1)))"
    "hits_gained L L1 strike_codes = replicate 4 0"
    "paid_gained L L1 strike_codes = replicate 4 0"
    using lotto_part [OF assms(1), where m = m and b = b and pbm = pbm] by blast
  obtain h where h: "strike_hits (take 4 (line_nums line)) (take 4 main6) = Inr h"
    "0 \<le> h" "h \<le> 4"
    using strike_hits_ok [of "take 4 (line_nums line)" "take 4 main6"] assms(2,3) by auto
  obtain L2 where L2:
    "(if h \<ge> 1 then award_strike h L1 else Inr L1) = Inr L2" "ledger_ok L2"
    "hits_gained L1 L2 strike_codes = strike_vec h 1"
    "paid_gained L1 L2 strike_codes = strike_vec h (STRIKE_PAYOUT ! nat (h - 1))"
    "hits_gained L1 L2 lotto_codes = replicate 7 0"
    "paid_gained L1 L2 lotto_codes = replicate 7 0"
    using strike_part [OF L1(2) h(2,3)] by blast
  have e: "score_line_against_draw line main6 bonus pb_draw strike_on L =
             Inr (line_cost line strike_on, if strike_on then L2 else L1)"
    unfolding score_line_against_draw_def Let_def m_def [symmetric] b_def [symmetric]
      pbm_def [symmetric] L1(1) h(1)
    by (simp add: bind_err_def L2(1))
  show ?thesis
  proof (cases strike_on)
    case True
    have 1: "hits_gained L L2 lotto_codes = division_vec (division_of m b) 1"
      unfolding gained_trans(1) [of L L2 lotto_codes L1] L1 L2
      by (simp add: map2_add_zeros)
    have 2: "paid_gained L L2 lotto_codes =
       (case division_of m b of None \<Rightarrow> replicate 7 0
        | Some d \<Rightarrow> one_at 7 (nat (d - 1))
                      ((if pbm then LOTTO_WITH_PB else LOTTO_NO_PB) ! nat (d - 1)))"
      unfolding gained_trans(2) [of L L2 lotto_codes L1] L1 L2
      by (simp add: map2_add_zeros one_at_def split: option.splits)
    have 3: "hits_gained L L2 strike_codes = strike_vec h 1"
      unfolding gained_trans(1) [of L L2 strike_codes L1] L1 L2
      by (simp add: map2_add_zeros)
    have 4: "paid_gained L L2 strike_codes = strike_vec h (STRIKE_PAYOUT ! nat (h - 1))"
      unfolding gained_trans(2) [of L L2 strike_codes L1] L1 L2
      by (simp add: map2_add_zeros)
    show ?thesis
      unfolding e using True 1 2 3 4 L2(2) h by (simp add: m_def b_def pbm)
  next
    case False
    then show ?thesis
      unfolding e using L1 h by (simp add: m_def b_def pbm)
  qed
qed

subsection \<open>Scoring one line\<close>

lemma ledger0_ok: "ledger_ok ledger0"
  by (simp add: ledger0_def init_vars_empty ledger_ok_def comp_def)

lemma main_matches_card:
  assumes "distinct ns"
  shows "main_matches ns main6 = int (card (set ns \<inter> set main6))"
proof -
  have "{x. x \<in> set main6} \<inter> set ns = set ns \<inter> set main6" by auto
  then show ?thesis
    unfolding main_matches_def distinct_length_filter [OF assms] by simp
qed

lemma division_vec_cases:
  "division_vec (division_of m b) (1::int) =
     (if m = 6 then [1, 0, 0, 0, 0, 0, 0]
      else if m = 5 \<and> b then [0, 1, 0, 0, 0, 0, 0]
      else if m = 5 then [0, 0, 1, 0, 0, 0, 0]
      else if m = 4 \<and> b then [0, 0, 0, 1, 0, 0, 0]
      else if m = 4 then [0, 0, 0, 0, 1, 0, 0]
      else if m = 3 \<and> b then [0, 0, 0, 0, 0, 1, 0]
      else if m = 3 then [0, 0, 0, 0, 0, 0, 1]
      else [0, 0, 0, 0, 0, 0, 0])"
  by (simp add: division_vec_def division_of_def one_at_7 zeros)

text \<open>
  C1. For a ledger with the prize codes of \<open>init_vars\<close>, a ticket line of six distinct
  numbers in 1..40 and a draw, \<open>score_line_against_draw\<close> returns without error, and
  the hit counts of D1..D7 grow by a vector that depends only on \<open>m\<close>, the number of
  the line's numbers among the six main numbers, and \<open>b\<close>, whether the bonus is one of
  the line's numbers: D1 for \<open>m = 6\<close> whatever \<open>b\<close> is, D2 for \<open>m = 5\<close> with \<open>b\<close>,
  D3 for \<open>m = 5\<close>, D4 for \<open>m = 4\<close> with \<open>b\<close>, D5 for \<open>m = 4\<close>, D6 for \<open>m = 3\<close>
  with \<open>b\<close>, D7 for \<open>m = 3\<close>, and no division otherwise; never more than one.
\<close>

theorem score_line_division:
  assumes "ledger_ok L" "line_ok line" "draw_ok main6 bonus pb_draw"
  shows "\<exists>cost L'.
           score_line_against_draw line main6 bonus pb_draw strike_on L = Inr (cost, L') \<and>
           hits_gained L L' lotto_codes =
             (let m = card (set (line_nums line) \<inter> set main6);
                  b = (bonus \<in> set (line_nums line))
              in if m = 6 then [1, 0, 0, 0, 0, 0, 0]
                 else if m = 5 \<and> b then [0, 1, 0, 0, 0, 0, 0]
                 else if m = 5 then [0, 0, 1, 0, 0, 0, 0]
                 else if m = 4 \<and> b then [0, 0, 0, 1, 0, 0, 0]
                 else if m = 4 then [0, 0, 0, 0, 1, 0, 0]
                 else if m = 3 \<and> b then [0, 0, 0, 0, 0, 1, 0]
                 else if m = 3 then [0, 0, 0, 0, 0, 0, 1]
                 else [0, 0, 0, 0, 0, 0, 0])"
proof -
  have l: "4 \<le> length (line_nums line)" "4 \<le> length main6" "distinct (line_nums line)"
    using assms(2,3) by (simp_all add: line_ok_def draw_ok_def)
  from score_line_gained [OF assms(1) l(1,2), of bonus pb_draw strike_on]
  obtain L' where L':
    "score_line_against_draw line main6 bonus pb_draw strike_on L =
       Inr (line_cost line strike_on, L')"
    "hits_gained L L' lotto_codes =
       division_vec (division_of (main_matches (line_nums line) main6)
                             (bonus \<in> set (line_nums line))) 1"
    by blast
  have "hits_gained L L' lotto_codes =
         (let m = card (set (line_nums line) \<inter> set main6);
              b = (bonus \<in> set (line_nums line))
          in if m = 6 then [1, 0, 0, 0, 0, 0, 0]
             else if m = 5 \<and> b then [0, 1, 0, 0, 0, 0, 0]
             else if m = 5 then [0, 0, 1, 0, 0, 0, 0]
             else if m = 4 \<and> b then [0, 0, 0, 1, 0, 0, 0]
             else if m = 4 then [0, 0, 0, 0, 1, 0, 0]
             else if m = 3 \<and> b then [0, 0, 0, 0, 0, 1, 0]
             else if m = 3 then [0, 0, 0, 0, 0, 0, 1]
             else [0, 0, 0, 0, 0, 0, 0])"
    unfolding L'(2) division_vec_cases main_matches_card [OF l(3)]
    by (simp add: Let_def)
  with L'(1) show ?thesis by blast
qed

lemma lines_ok: "line_ok line_a" "line_ok line_b" "line_ok line_c"
  by (simp_all add: line_ok_def line_a_def line_b_def line_c_def)

lemma draw_ok_123456: "draw_ok [1, 2, 3, 4, 5, 6] 7 3"
  by (simp add: draw_ok_def)

theorem score_line_division_witness:
  "ledger_ok ledger0 \<and> line_ok line_a \<and> draw_ok [1, 2, 3, 4, 5, 6] 7 3 \<and>
   (\<exists>cost L'.
      score_line_against_draw line_a [1, 2, 3, 4, 5, 6] 7 3 False ledger0 = Inr (cost, L') \<and>
      hits_gained ledger0 L' lotto_codes = [0, 0, 0, 0, 0, 0, 1])"
proof -
  have c: "card (set (line_nums line_a) \<inter> {1, 2, 3, 4, 5, 6}) = 3"
    by (simp add: line_a_def)
  have b: "7 \<notin> set (line_nums line_a)" by (simp add: line_a_def)
  show ?thesis
    using score_line_division [OF ledger0_ok lines_ok(1) draw_ok_123456, of False]
      ledger0_ok lines_ok(1) draw_ok_123456
    by (simp add: c b)
qed

lemma strike_hits_take:
  assumes "4 \<le> length ns" "4 \<le> length main6"
  shows "strike_hits (take 4 ns) (take 4 main6) =
           Inr (int (length (filter (\<lambda>i. ns ! i = main6 ! i) [0..<4])))"
proof -
  have "filter (\<lambda>i. take 4 ns ! i = take 4 main6 ! i) [0..<4] =
        filter (\<lambda>i. ns ! i = main6 ! i) [0..<4]"
    by (rule filter_cong) simp_all
  then show ?thesis using assms by (simp add: strike_hits_def)
qed

lemma strike_vec_cases:
  assumes "h \<le> 4"
  shows "strike_vec (int h) v =
           (if h = 0 then [0, 0, 0, 0] else if h = 1 then [v, 0, 0, 0]
            else if h = 2 then [0, v, 0, 0] else if h = 3 then [0, 0, v, 0]
            else [0, 0, 0, v])"
proof -
  from assms have "h = 0 \<or> h = 1 \<or> h = 2 \<or> h = 3 \<or> h = 4" by arith
  then show ?thesis
    by (elim disjE) (simp_all add: strike_vec_def one_at_4 zeros)
qed

lemma strike_payout_at:
  "STRIKE_PAYOUT ! 0 = 1" "STRIKE_PAYOUT ! Suc 0 = 77" "STRIKE_PAYOUT ! 2 = 545"
  "STRIKE_PAYOUT ! 3 = 1000000"
  by (simp_all add: STRIKE_PAYOUT_def)

text \<open>
  C2. With Strike on, the line's first four numbers as typed are compared position by
  position with the first four main numbers as drawn; with \<open>hits\<close> matching positions,
  \<open>hits \<ge> 1\<close> adds one hit and the payout of tier \<open>hits\<close> to that Strike code alone, and
  \<open>hits = 0\<close> changes no Strike code. With Strike off no Strike code changes. The
  payouts 1, 77, 545, 1000000 of the four tiers are strictly increasing.
\<close>

theorem score_line_strike:
  assumes "ledger_ok L" "line_ok line" "draw_ok main6 bonus pb_draw"
  shows "(\<exists>cost L'.
            score_line_against_draw line main6 bonus pb_draw strike_on L = Inr (cost, L') \<and>
            (let hits = length (filter (\<lambda>i. line_nums line ! i = main6 ! i) [0..<4])
             in hits_gained L L' strike_codes =
                  (if \<not> strike_on \<or> hits = 0 then [0, 0, 0, 0]
                   else if hits = 1 then [1, 0, 0, 0]
                   else if hits = 2 then [0, 1, 0, 0]
                   else if hits = 3 then [0, 0, 1, 0]
                   else [0, 0, 0, 1]) \<and>
                paid_gained L L' strike_codes =
                  (if \<not> strike_on \<or> hits = 0 then [0, 0, 0, 0]
                   else if hits = 1 then [1, 0, 0, 0]
                   else if hits = 2 then [0, 77, 0, 0]
                   else if hits = 3 then [0, 0, 545, 0]
                   else [0, 0, 0, 1000000]))) \<and>
         sorted_wrt (<) STRIKE_PAYOUT \<and> length STRIKE_PAYOUT = 4"
proof -
  have l: "4 \<le> length (line_nums line)" "4 \<le> length main6"
    using assms(2,3) by (simp_all add: line_ok_def draw_ok_def)
  define hits where "hits = length (filter (\<lambda>i. line_nums line ! i = main6 ! i) [0..<4])"
  have "hits \<le> length [0..<4]" unfolding hits_def by (rule length_filter_le)
  then have h4: "hits \<le> 4" by simp
  from score_line_gained [OF assms(1) l, of bonus pb_draw strike_on]
  obtain L' where L':
    "score_line_against_draw line main6 bonus pb_draw strike_on L =
       Inr (line_cost line strike_on, L')"
    "hits_gained L L' strike_codes =
       (if strike_on then strike_vec (int hits) 1 else replicate 4 0)"
    "paid_gained L L' strike_codes =
       (if strike_on then strike_vec (int hits) (STRIKE_PAYOUT ! nat (int hits - 1))
        else replicate 4 0)"
    unfolding strike_hits_take [OF l] hits_def by auto
  have hg: "hits_gained L L' strike_codes =
              (if \<not> strike_on \<or> hits = 0 then [0, 0, 0, 0]
               else if hits = 1 then [1, 0, 0, 0]
               else if hits = 2 then [0, 1, 0, 0]
               else if hits = 3 then [0, 0, 1, 0]
               else [0, 0, 0, 1])"
    unfolding L'(2) strike_vec_cases [OF h4] by (simp add: zeros)
  from h4 have "hits = 0 \<or> hits = 1 \<or> hits = 2 \<or> hits = 3 \<or> hits = 4" by arith
  then have pg: "paid_gained L L' strike_codes =
              (if \<not> strike_on \<or> hits = 0 then [0, 0, 0, 0]
               else if hits = 1 then [1, 0, 0, 0]
               else if hits = 2 then [0, 77, 0, 0]
               else if hits = 3 then [0, 0, 545, 0]
               else [0, 0, 0, 1000000])"
    unfolding L'(3) strike_vec_cases [OF h4]
    by (elim disjE) (simp_all add: zeros strike_payout_at)
  have "sorted_wrt (<) STRIKE_PAYOUT \<and> length STRIKE_PAYOUT = 4"
    by (simp add: STRIKE_PAYOUT_def)
  with L'(1) hg pg show ?thesis unfolding hits_def Let_def by blast
qed

theorem score_line_strike_witness:
  "ledger_ok ledger0 \<and> line_ok line_c \<and> draw_ok [1, 2, 3, 4, 5, 6] 7 3 \<and>
   (\<exists>cost L'.
      score_line_against_draw line_c [1, 2, 3, 4, 5, 6] 7 3 True ledger0 = Inr (cost, L') \<and>
      hits_gained ledger0 L' strike_codes = [0, 0, 0, 0] \<and>
      paid_gained ledger0 L' strike_codes = [0, 0, 0, 0])"
proof -
  have f: "filter (\<lambda>i. line_nums line_c ! i = [1, 2, 3, 4, 5, 6 :: int] ! i) [0..<4] = []"
    by (simp add: line_c_def upt_rec)
  show ?thesis
    using score_line_strike [OF ledger0_ok lines_ok(3) draw_ok_123456, of True]
      ledger0_ok lines_ok(3) draw_ok_123456
    by (simp add: f)
qed

text \<open>
  C3. When the line wins division \<open>d\<close>, the amount added to that division's code is
  entry \<open>d\<close> of \<open>LOTTO_WITH_PB\<close> exactly when the line declares a Powerball equal to
  the drawn one, and entry \<open>d\<close> of \<open>LOTTO_NO_PB\<close> otherwise, in particular for a line
  that declares none. When the line wins no division, no division's hit count or amount
  changes, whether or not its Powerball matches.
\<close>

theorem score_line_powerball_table:
  assumes "ledger_ok L" "line_ok line" "draw_ok main6 bonus pb_draw"
  shows "\<exists>cost L'.
           score_line_against_draw line main6 bonus pb_draw strike_on L = Inr (cost, L') \<and>
           (case division_of (main_matches (line_nums line) main6)
                   (bonus \<in> set (line_nums line)) of
              None \<Rightarrow>
                hits_gained L L' lotto_codes = [0, 0, 0, 0, 0, 0, 0] \<and>
                paid_gained L L' lotto_codes = [0, 0, 0, 0, 0, 0, 0]
            | Some d \<Rightarrow>
                paid_gained L L' lotto_codes =
                  one_at 7 (nat (d - 1))
                    ((if line_pb line = Some pb_draw then LOTTO_WITH_PB else LOTTO_NO_PB)
                       ! nat (d - 1)) \<and>
                (line_pb line = None \<longrightarrow>
                   paid_gained L L' lotto_codes =
                     one_at 7 (nat (d - 1)) (LOTTO_NO_PB ! nat (d - 1))))"
proof -
  have l: "4 \<le> length (line_nums line)" "4 \<le> length main6"
    using assms(2,3) by (simp_all add: line_ok_def draw_ok_def)
  from score_line_gained [OF assms(1) l, of bonus pb_draw strike_on]
  obtain L' where L':
    "score_line_against_draw line main6 bonus pb_draw strike_on L =
       Inr (line_cost line strike_on, L')"
    "hits_gained L L' lotto_codes =
       division_vec (division_of (main_matches (line_nums line) main6)
                             (bonus \<in> set (line_nums line))) 1"
    "paid_gained L L' lotto_codes =
             (case division_of (main_matches (line_nums line) main6)
                     (bonus \<in> set (line_nums line)) of
                None \<Rightarrow> replicate 7 0
              | Some d \<Rightarrow> one_at 7 (nat (d - 1))
                   ((if line_pb line = Some pb_draw then LOTTO_WITH_PB else LOTTO_NO_PB)
                      ! nat (d - 1)))"
    by blast
  have "case division_of (main_matches (line_nums line) main6)
                   (bonus \<in> set (line_nums line)) of
              None \<Rightarrow>
                hits_gained L L' lotto_codes = [0, 0, 0, 0, 0, 0, 0] \<and>
                paid_gained L L' lotto_codes = [0, 0, 0, 0, 0, 0, 0]
            | Some d \<Rightarrow>
                paid_gained L L' lotto_codes =
                  one_at 7 (nat (d - 1))
                    ((if line_pb line = Some pb_draw then LOTTO_WITH_PB else LOTTO_NO_PB)
                       ! nat (d - 1)) \<and>
                (line_pb line = None \<longrightarrow>
                   paid_gained L L' lotto_codes =
                     one_at 7 (nat (d - 1)) (LOTTO_NO_PB ! nat (d - 1)))"
    unfolding L'(2,3) by (simp add: division_vec_def zeros split: option.splits)
  with L'(1) show ?thesis by blast
qed

theorem score_line_powerball_table_witness:
  "ledger_ok ledger0 \<and> line_ok line_b \<and> draw_ok [1, 2, 3, 4, 5, 6] 7 3 \<and>
   division_of (main_matches (line_nums line_b) [1, 2, 3, 4, 5, 6]) (7 \<in> set (line_nums line_b))
     = Some 1 \<and>
   (\<exists>cost L'.
      score_line_against_draw line_b [1, 2, 3, 4, 5, 6] 7 3 False ledger0 = Inr (cost, L') \<and>
      paid_gained ledger0 L' lotto_codes = [30000000, 0, 0, 0, 0, 0, 0])"
proof -
  have d: "division_of (main_matches (line_nums line_b) [1, 2, 3, 4, 5, 6])
             (7 \<in> set (line_nums line_b)) = Some 1"
    by (simp add: line_b_def main_matches_def division_of_def)
  have p: "line_pb line_b = Some 3" by (simp add: line_b_def)
  show ?thesis
    using score_line_powerball_table [OF ledger0_ok lines_ok(2) draw_ok_123456, of False]
      ledger0_ok lines_ok(2) draw_ok_123456
    unfolding d by (simp add: p one_at_7 LOTTO_WITH_PB_def)
qed

subsection \<open>One draw cycle without lines, and reset\<close>

lemma initial_app_eq:
  "initial_app =
     \<lparr>stats = map (\<lambda>k. (k, 0)) codes, paid = map (\<lambda>k. (k, 0)) codes,
      ticket_text = [], spend = 0, returns = 0, draw_number = 0,
      speed_var = DEFAULT_SPEED, powerball_var = False, strike_var = False,
      base_numbers_var = [], V = [], running = False, after_id = None,
      status_var = Ready, last_draw = None, rng_calls = 0\<rparr>"
  by (simp add: initial_app_def init_vars_def refresh_paid_labels_def codes_def dict_store_def
      var_set_def dict_values_def)

lemma parse_empty: "parse_ticket_lines [] = []"
  by (simp add: parse_ticket_lines_def text_get_def strip_def isspace_def splitlines_def
      List.map_filter_simps)

text \<open>
  C7. When the ticket text parses to no ticket line, \<open>do_draw_once\<close> returns the state
  it was given with only the status line changed: the draw counter, the number of calls
  made to the random source, the labels of the last draw, both tallies, the spend and
  the returns are as before, whatever the random source holds.
\<close>

theorem do_draw_once_no_lines:
  assumes "parse_ticket_lines (ticket_text s) = []"
  shows "\<exists>s'. do_draw_once R s = Inr s' \<and> s' = s\<lparr>status_var := NoValidLines\<rparr> \<and>
           draw_number s' = draw_number s \<and> rng_calls s' = rng_calls s \<and>
           last_draw s' = last_draw s \<and>
           stats s' = stats s \<and> paid s' = paid s \<and>
           spend s' = spend s \<and> returns s' = returns s"
  using assms by (simp add: do_draw_once_def set_status_def)

theorem do_draw_once_no_lines_witness:
  "parse_ticket_lines (ticket_text initial_app) = [] \<and>
   do_draw_once id_rng initial_app = Inr (initial_app\<lparr>status_var := NoValidLines\<rparr>)"
proof -
  have e: "parse_ticket_lines (ticket_text initial_app) = []"
    by (simp add: initial_app_eq parse_empty)
  from do_draw_once_no_lines [OF e, of id_rng] e show ?thesis by simp
qed

lemma zero_values:
  "map (\<lambda>(k, v). (k, 0)) d = map (\<lambda>k. (k, 0)) (map fst d)"
  "map fst (map (\<lambda>(k, v). (k, 0)) d) = map fst d"
  "map snd (map (\<lambda>(k, v). (k, 0)) d) = replicate (length d) 0"
  by (induction d) auto

lemma zero_values_comp:
  "map (fst \<circ> (\<lambda>(k, v). (k, 0))) d = map fst d"
  "map (snd \<circ> (\<lambda>(k, v). (k, 0))) d = replicate (length d) 0"
  by (induction d) auto

lemma sum_zero_values:
  "sum_list (map (snd \<circ> (\<lambda>(k, v). (k, 0::rat))) d) = 0"
  "sum_list (map (snd \<circ> (\<lambda>k. (k, 0::rat))) ks) = 0"
  by (induction d, auto) (induction ks, auto)

text \<open>
  C8. After \<open>on_reset\<close>, from any state: every hit count and every amount paid is 0
  under the same prize codes, spend and returns are 0 and so is their difference, the
  draw counter is 0, the speed, Powerball and Strike controls have their start values,
  no timer is pending, the ticket text is empty and parses to no line, and the base
  numbers are cleared. From a state whose tallies have the prize codes of \<open>init_vars\<close>
  the result is the state at program start, up to the status line and the number of
  calls made to the random source.
\<close>

theorem on_reset_complete:
  "map fst (stats (on_reset s)) = map fst (stats s) \<and>
   map snd (stats (on_reset s)) = replicate (length (stats s)) 0 \<and>
   map fst (paid (on_reset s)) = map fst (paid s) \<and>
   map snd (paid (on_reset s)) = replicate (length (paid s)) 0 \<and>
   spend (on_reset s) = 0 \<and> returns (on_reset s) = 0 \<and>
   returns (on_reset s) - spend (on_reset s) = 0 \<and>
   draw_number (on_reset s) = 0 \<and>
   speed_var (on_reset s) = DEFAULT_SPEED \<and> \<not> powerball_var (on_reset s) \<and>
   \<not> strike_var (on_reset s) \<and> \<not> running (on_reset s) \<and> after_id (on_reset s) = None \<and>
   ticket_text (on_reset s) = [] \<and> parse_ticket_lines (ticket_text (on_reset s)) = [] \<and>
   V (on_reset s) = [] \<and> base_numbers_var (on_reset s) = [] \<and>
   (ledger_ok s \<longrightarrow>
      on_reset s = initial_app\<lparr>status_var := ResetComplete, rng_calls := rng_calls s\<rparr>)"
proof -
  have r: "returns (on_reset s) = 0"
    by (simp add: on_reset_def refresh_paid_labels_def dict_values_def sum_zero_values)
  have t: "parse_ticket_lines (ticket_text (on_reset s)) = []"
    by (simp add: on_reset_def refresh_paid_labels_def parse_empty)
  have i: "on_reset s = initial_app\<lparr>status_var := ResetComplete, rng_calls := rng_calls s\<rparr>"
    if "ledger_ok s"
    using that
    by (cases s)
       (simp add: on_reset_def refresh_paid_labels_def dict_values_def sum_zero_values
          initial_app_eq ledger_ok_def zero_values(1))
  show ?thesis
    using r t i
    by (simp add: on_reset_def refresh_paid_labels_def zero_values_comp)
qed

theorem on_reset_complete_witness:
  "ledger_ok (initial_app\<lparr>draw_number := 5, spend := 7, strike_var := True,
                          ticket_text := ''01 02 03 04 05 06'', V := [1, 2, 3]\<rparr>) \<and>
   on_reset (initial_app\<lparr>draw_number := 5, spend := 7, strike_var := True,
                         ticket_text := ''01 02 03 04 05 06'', V := [1, 2, 3]\<rparr>) =
     initial_app\<lparr>status_var := ResetComplete\<rparr>"
proof -
  have k: "ledger_ok (initial_app\<lparr>draw_number := 5, spend := 7, strike_var := True,
                          ticket_text := ''01 02 03 04 05 06'', V := [1, 2, 3]\<rparr>)"
    by (simp add: initial_app_eq ledger_ok_def comp_def)
  show ?thesis
    using on_reset_complete [of "initial_app\<lparr>draw_number := 5, spend := 7, strike_var := True,
                          ticket_text := ''01 02 03 04 05 06'', V := [1, 2, 3]\<rparr>"] k
    by (simp add: initial_app_eq)
qed

subsection \<open>The system wheel\<close>

lemma add_ticket_line_V [simp]: "V (add_ticket_line nums pb s) = V s"
  by (simp add: add_ticket_line_def Let_def split: option.splits)

lemma add_ticket_line_powerball_var [simp]:
  "powerball_var (add_ticket_line nums pb s) = powerball_var s"
  by (simp add: add_ticket_line_def Let_def split: option.splits)

lemma wheel_lines_V [simp]: "V (wheel_lines R combs s) = V s"
  by (induction combs arbitrary: s) simp_all

lemma length_pool: "length [1..40::int] = 40"
  by simp

lemma sub_mset_distinct:
  assumes "mset xs \<subseteq># mset ys" "distinct ys"
  shows "distinct xs"
proof -
  have "count (mset xs) a \<le> 1" for a
  proof -
    have "count (mset xs) a \<le> count (mset ys) a"
      using assms(1) by (simp add: mset_subset_eq_count)
    also have "\<dots> \<le> 1" using assms(2) by (simp add: distinct_count_atmost_1)
    finally show ?thesis .
  qed
  moreover have "0 < count (mset xs) a" if "a \<in> set xs" for a
    using that by simp
  ultimately have "count (mset xs) a = 1" if "a \<in> set xs" for a
    using that by (metis One_nat_def le_antisym Suc_leI)
  then show ?thesis unfolding distinct_count_atmost_1 by simp
qed

lemma sample_base:
  assumes "rng_ok R" "0 \<le> m" "m \<le> 40"
  shows "length (sort (sample_out R n [1..40] (nat m))) = nat m"
    and "distinct (sort (sample_out R n [1..40] (nat m)))"
    and "set (sort (sample_out R n [1..40] (nat m))) \<subseteq> {1..40}"
    and "sorted (sort (sample_out R n [1..40] (nat m)))"
proof -
  have k: "nat m \<le> length [1..40::int]" using assms(2,3) by simp
  from assms(1) k have l: "length (sample_out R n [1..40] (nat m)) = nat m"
    and sub: "mset (sample_out R n [1..40] (nat m)) \<subseteq># mset [1..40]"
    unfolding rng_ok_def by blast+
  show "length (sort (sample_out R n [1..40] (nat m))) = nat m" using l by simp
  show "distinct (sort (sample_out R n [1..40] (nat m)))"
    using sub_mset_distinct [OF sub] by simp
  have "set (sample_out R n [1..40] (nat m)) \<subseteq> set [1..40]"
    using sub by (metis set_mset_mono set_mset_mset)
  then show "set (sort (sample_out R n [1..40] (nat m))) \<subseteq> {1..40}" by simp
  show "sorted (sort (sample_out R n [1..40] (nat m)))" by simp
qed

lemma system_wheel_eq:
  fixes m :: int and R :: rng_oracle and s :: app
  assumes "0 \<le> m" "m \<le> 40"
  defines "base \<equiv> (if int (length (V s)) = m then V s
                     else sort (sample_out R (rng_calls s) [1..40] (nat m)))"
    and "s1 \<equiv> (if int (length (V s)) = m then s else s\<lparr>rng_calls := rng_calls s + 1\<rparr>)"
  shows "system_wheel m R s =
           Inr (set_status
                  (SystemProduced m base
                     (index_end (ticket_text (wheel_lines R (combinations base 6) s1)) -
                      index_end (ticket_text s1)))
                  (wheel_lines R (combinations base 6) s1))"
proof -
  have e: "rng_sample R (rng_calls s) [1..40] m = Inr (sample_out R (rng_calls s) [1..40] (nat m))"
    using assms(1,2) by (simp add: rng_sample_def)
  show ?thesis
    unfolding system_wheel_def e base_def s1_def by (simp add: Let_def)
qed

text \<open>
  C10. For a wheel size \<open>m\<close> from 0 to 40, \<open>system_wheel\<close> returns without error and
  leaves the stored base numbers \<open>V\<close> as they were. When \<open>V\<close> holds exactly \<open>m\<close>
  numbers, the base it reports and expands into lines is \<open>V\<close>, and the sample of the
  random source is not drawn. For any other size of \<open>V\<close>, the base is the sorted value
  of \<^verbatim>\<open>rng.sample(range(1, 41), m)\<close>, one call to the random source, whatever \<open>V\<close>
  holds: \<open>m\<close> distinct numbers in 1..40 by the contract of the random source.
\<close>

theorem system_wheel_base:
  assumes "0 \<le> m" "m \<le> 40"
  shows "\<exists>s' base added.
           system_wheel m R s = Inr s' \<and> V s' = V s \<and>
           status_var s' = SystemProduced m base added \<and>
           (int (length (V s)) = m \<longrightarrow>
              base = V s \<and>
              s' = set_status (SystemProduced m base added)
                     (wheel_lines R (combinations base 6) s)) \<and>
           (int (length (V s)) \<noteq> m \<longrightarrow>
              base = sort (sample_out R (rng_calls s) [1..40] (nat m)) \<and>
              s' = set_status (SystemProduced m base added)
                     (wheel_lines R (combinations base 6) (s\<lparr>rng_calls := rng_calls s + 1\<rparr>)) \<and>
              (rng_ok R \<longrightarrow>
                 length base = nat m \<and> distinct base \<and> set base \<subseteq> {1..40} \<and> sorted base))"
proof -
  define base where "base = (if int (length (V s)) = m then V s
                     else sort (sample_out R (rng_calls s) [1..40] (nat m)))"
  define s1 where "s1 = (if int (length (V s)) = m then s else s\<lparr>rng_calls := rng_calls s + 1\<rparr>)"
  define added where "added = index_end (ticket_text (wheel_lines R (combinations base 6) s1)) -
                      index_end (ticket_text s1)"
  define s' where "s' = set_status (SystemProduced m base added) (wheel_lines R (combinations base 6) s1)"
  have 1: "system_wheel m R s = Inr s'"
    unfolding s'_def added_def base_def s1_def by (rule system_wheel_eq [OF assms])
  have 2: "V s' = V s" by (simp add: s'_def set_status_def s1_def)
  have 3: "status_var s' = SystemProduced m base added" by (simp add: s'_def set_status_def)
  have 4: "base = V s \<and> s' = set_status (SystemProduced m base added)
                     (wheel_lines R (combinations base 6) s)"
    if "int (length (V s)) = m"
    using that by (simp add: s'_def base_def s1_def)
  have 5: "base = sort (sample_out R (rng_calls s) [1..40] (nat m)) \<and>
              s' = set_status (SystemProduced m base added)
                     (wheel_lines R (combinations base 6) (s\<lparr>rng_calls := rng_calls s + 1\<rparr>))"
    if "int (length (V s)) \<noteq> m"
    using that by (simp add: s'_def base_def s1_def)
  have 6: "length base = nat m \<and> distinct base \<and> set base \<subseteq> {1..40} \<and> sorted base"
    if "int (length (V s)) \<noteq> m" "rng_ok R"
    using sample_base [OF that(2) assms, of "rng_calls s"] that(1) unfolding base_def by simp
  from 1 2 3 4 5 6 show ?thesis by blast
qed

theorem system_wheel_base_witness:
  "(0::int) \<le> 7 \<and> (7::int) \<le> 40 \<and> rng_ok id_rng \<and>
   (\<exists>s' added.
      system_wheel 7 id_rng (initial_app\<lparr>V := [2, 4, 6, 8, 10, 12, 14]\<rparr>) = Inr s' \<and>
      V s' = [2, 4, 6, 8, 10, 12, 14] \<and>
      status_var s' = SystemProduced 7 [2, 4, 6, 8, 10, 12, 14] added) \<and>
   (\<exists>s' added.
      system_wheel 7 id_rng (initial_app\<lparr>V := [2, 4, 6]\<rparr>) = Inr s' \<and>
      V s' = [2, 4, 6] \<and>
      status_var s' = SystemProduced 7 [1, 2, 3, 4, 5, 6, 7] added)"
proof -
  have t: "sort (sample_out id_rng n [1..40] 7) = [1, 2, 3, 4, 5, 6, 7]" for n
  proof -
    have "take 7 [1..40::int] = [1, 2, 3, 4, 5, 6, 7]" by code_simp
    then show ?thesis by (simp add: id_rng_def)
  qed
  have a: "\<exists>s' added.
      system_wheel 7 id_rng (initial_app\<lparr>V := [2, 4, 6, 8, 10, 12, 14]\<rparr>) = Inr s' \<and>
      V s' = [2, 4, 6, 8, 10, 12, 14] \<and>
      status_var s' = SystemProduced 7 [2, 4, 6, 8, 10, 12, 14] added"
    using system_wheel_base [of 7 id_rng "initial_app\<lparr>V := [2, 4, 6, 8, 10, 12, 14]\<rparr>"]
    by auto
  have b: "\<exists>s' added.
      system_wheel 7 id_rng (initial_app\<lparr>V := [2, 4, 6]\<rparr>) = Inr s' \<and>
      V s' = [2, 4, 6] \<and>
      status_var s' = SystemProduced 7 [1, 2, 3, 4, 5, 6, 7] added"
    using system_wheel_base [of 7 id_rng "initial_app\<lparr>V := [2, 4, 6]\<rparr>"]
    by (auto simp: t)
  from a b id_rng_ok show ?thesis by simp
qed

subsection \<open>The ticket parser\<close>




lemma parse_line_Some:
  assumes "parse_line raw = Some l"
  shows "line_nums l = take 6 (collected_numbers raw)"
    and "6 \<le> length (collected_numbers raw)"
    and "length (line_nums l) = 6"
    and "\<forall>n \<in> set (line_nums l). 1 \<le> n \<and> n \<le> 40"
    and "\<forall>p. line_pb l = Some p \<longrightarrow> 1 \<le> p \<and> p \<le> 10"
proof -
  obtain nums pb where sc: "scan_tokens (line_tokens (strip raw)) [] None = (nums, pb)"
    by (cases "scan_tokens (line_tokens (strip raw)) [] None") auto
  have c: "collected_numbers raw = filter (\<lambda>n. 1 \<le> n \<and> n \<le> 40) nums"
    by (simp add: collected_numbers_def sc)
  from assms have l: "\<not> length (take 6 (collected_numbers raw)) < 6"
    "l = \<lparr>line_nums = take 6 (collected_numbers raw),
          line_pb = (case pb of None \<Rightarrow> None
                     | Some p \<Rightarrow> if 1 \<le> p \<and> p \<le> 10 then Some p else None)\<rparr>"
    unfolding parse_line_def Let_def sc c by (auto split: if_splits)
  show 1: "line_nums l = take 6 (collected_numbers raw)" using l(2) by simp
  show 2: "6 \<le> length (collected_numbers raw)" using l(1) by simp
  show "length (line_nums l) = 6" using 1 2 by simp
  have "set (take 6 (collected_numbers raw)) \<subseteq> set (collected_numbers raw)"
    by (rule set_take_subset)
  then show "\<forall>n \<in> set (line_nums l). 1 \<le> n \<and> n \<le> 40"
    unfolding 1 c by auto
  show "\<forall>p. line_pb l = Some p \<longrightarrow> 1 \<le> p \<and> p \<le> 10"
    using l(2) by (auto split: option.splits if_splits)
qed


lemma set_map_filter:
  "set (List.map_filter f xs) = {y. \<exists>x \<in> set xs. f x = Some y}"
  by (induction xs) (auto split: option.splits)






subsection \<open>Monotone tallies\<close>

lemma grows_refl: "ledger_ok L \<Longrightarrow> grows L L"
proof -
  assume "ledger_ok L"
  moreover have "L = L\<lparr>stats := stats L, paid := paid L\<rparr>" by simp
  ultimately show ?thesis unfolding grows_def by blast
qed

lemma grows_trans:
  assumes "grows L L1" "grows L1 L2"
  shows "grows L L2"
proof -
  from assms obtain X Y X' Y' where "L1 = L\<lparr>stats := X, paid := Y\<rparr>"
    "L2 = L1\<lparr>stats := X', paid := Y'\<rparr>"
    unfolding grows_def by blast
  then have "L2 = L\<lparr>stats := X', paid := Y'\<rparr>" by simp
  moreover have "tally (stats L) k \<le> tally (stats L2) k" for k
    using assms unfolding grows_def by (meson order_trans)
  moreover have "tally (paid L) k \<le> tally (paid L2) k" for k
    using assms unfolding grows_def by (meson order_trans)
  ultimately show ?thesis using assms(2) unfolding grows_def by blast
qed

lemma payouts_nonneg:
  assumes "1 \<le> d" "d \<le> 7"
  shows "0 \<le> (if pbm then LOTTO_WITH_PB else LOTTO_NO_PB) ! nat (d - 1)"
  using int_1_7 [OF assms]
  by (elim disjE) (simp_all add: LOTTO_WITH_PB_def LOTTO_NO_PB_def)

lemma strike_payouts_nonneg:
  assumes "1 \<le> h" "h \<le> 4"
  shows "0 \<le> STRIKE_PAYOUT ! nat (h - 1)"
proof -
  from assms have "h = 1 \<or> h = 2 \<or> h = 3 \<or> h = 4" by arith
  then show ?thesis by (elim disjE) (simp_all add: STRIKE_PAYOUT_def)
qed

lemma award_lotto_grows:
  assumes "ledger_ok L" "1 \<le> d" "d \<le> 7"
  shows "\<exists>L1. award_lotto d pbm L = Inr L1 \<and> grows L L1"
proof -
  note e = award_lotto_ok [OF assms, of pbm]
  note n = payouts_nonneg [OF assms(2,3), of pbm]
  show ?thesis
    unfolding e grows_def using assms(1) n
    by (auto simp: ledger_ok_def tally_var_set)
qed

lemma award_strike_grows:
  assumes "ledger_ok L" "1 \<le> h" "h \<le> 4"
  shows "\<exists>L1. award_strike h L = Inr L1 \<and> grows L L1"
proof -
  note e = award_strike_ok [OF assms]
  note n = strike_payouts_nonneg [OF assms(2,3)]
  show ?thesis
    unfolding e grows_def using assms(1) n
    by (auto simp: ledger_ok_def tally_var_set)
qed

lemma line_cost_nonneg: "0 \<le> line_cost line strike_on"
  by (simp add: line_cost_def COST_LOTTO_PB_def COST_LOTTO_ONLY_def COST_STRIKE_def Let_def)

lemma score_line_grows:
  assumes "ledger_ok L" "4 \<le> length (line_nums line)" "4 \<le> length main6"
  shows "\<exists>L'. score_line_against_draw line main6 bonus pb_draw strike_on L =
                 Inr (line_cost line strike_on, L') \<and> grows L L'"
proof -
  define m where "m = main_matches (line_nums line) main6"
  define b where "b = (bonus \<in> set (line_nums line))"
  define pbm where "pbm = (line_pb line \<noteq> None \<and> line_pb line = Some pb_draw)"
  obtain L1 where L1:
    "(case division_of m b of None \<Rightarrow> Inr L | Some d \<Rightarrow> award_lotto d pbm L) = Inr L1"
    "grows L L1"
  proof (cases "division_of m b")
    case None
    with grows_refl [OF assms(1)] that show ?thesis by simp
  next
    case (Some d)
    with division_of_range [OF Some] award_lotto_grows [OF assms(1), of d pbm] that
    show ?thesis by auto
  qed
  have ok1: "ledger_ok L1" using L1(2) by (simp add: grows_def)
  obtain h where h: "strike_hits (take 4 (line_nums line)) (take 4 main6) = Inr h"
    "0 \<le> h" "h \<le> 4"
    using strike_hits_ok [of "take 4 (line_nums line)" "take 4 main6"] assms(2,3) by auto
  obtain L2 where L2: "(if h \<ge> 1 then award_strike h L1 else Inr L1) = Inr L2" "grows L1 L2"
  proof (cases "h \<ge> 1")
    case True
    with award_strike_grows [OF ok1 True h(3)] that show ?thesis by auto
  next
    case False
    with grows_refl [OF ok1] that show ?thesis by simp
  qed
  have e: "score_line_against_draw line main6 bonus pb_draw strike_on L =
             Inr (line_cost line strike_on, if strike_on then L2 else L1)"
    unfolding score_line_against_draw_def Let_def m_def [symmetric] b_def [symmetric]
      pbm_def [symmetric] L1(1) h(1)
    by (simp add: bind_err_def L2(1))
  show ?thesis
    unfolding e using L1(2) grows_trans [OF L1(2) L2(2)] by simp
qed

lemma score_all_grows:
  assumes "ledger_ok L" "\<forall>line \<in> set lines. 4 \<le> length (line_nums line)" "4 \<le> length main6"
  shows "\<exists>total L'. score_all lines main6 bonus pb_draw strike_on total0 L = Inr (total, L') \<and>
           grows L L' \<and> total0 \<le> total"
  using assms(1,2)
proof (induction lines arbitrary: L total0)
  case Nil
  then show ?case by (simp add: grows_refl)
next
  case (Cons line lines)
  from Cons.prems obtain L1 where L1:
    "score_line_against_draw line main6 bonus pb_draw strike_on L =
       Inr (line_cost line strike_on, L1)" "grows L L1"
    using score_line_grows [OF _ _ assms(3), of L line bonus pb_draw strike_on] by auto
  have ok1: "ledger_ok L1" using L1(2) by (simp add: grows_def)
  from Cons.IH [OF ok1, of "total0 + line_cost line strike_on"] Cons.prems(2)
  obtain total L' where t:
    "score_all lines main6 bonus pb_draw strike_on (total0 + line_cost line strike_on) L1 =
       Inr (total, L')" "grows L1 L'" "total0 + line_cost line strike_on \<le> total"
    by auto
  have "total0 \<le> total" using t(3) line_cost_nonneg [of line strike_on] by linarith
  with t(1) grows_trans [OF L1(2) t(2)] show ?case by (simp add: L1(1))
qed

lemma sum_values_tally:
  fixes d :: "rat dict"
  assumes "distinct (map fst d)"
  shows "sum_list (dict_values d) = sum_list (map (tally d) (map fst d))"
  using assms
proof (induction d)
  case Nil
  then show ?case by (simp add: dict_values_def)
next
  case (Cons kv d)
  obtain k v where kv: "kv = (k, v)" by (cases kv)
  from Cons.prems have nk: "k \<notin> set (map fst d)" and dd: "distinct (map fst d)"
    by (simp_all add: kv)
  have a: "tally ((k, v) # d) k = v" by (simp add: tally_def)
  have b: "map (tally ((k, v) # d)) (map fst d) = map (tally d) (map fst d)"
    using nk by (intro map_cong refl) (auto simp: tally_def)
  have "sum_list (dict_values ((k, v) # d)) = v + sum_list (dict_values d)"
    by (simp add: dict_values_def)
  also have "\<dots> = v + sum_list (map (tally d) (map fst d))"
    by (simp only: Cons.IH [OF dd])
  also have "\<dots> = sum_list (map (tally ((k, v) # d)) (map fst ((k, v) # d)))"
    by (simp only: list.map fst_conv sum_list.Cons a b)
  finally show ?case by (simp only: kv)
qed

lemma distinct_codes: "distinct codes"
  by (simp add: codes_def)

lemma grows_sum:
  assumes "ledger_ok L" "grows L L'"
  shows "sum_list (dict_values (paid L)) \<le> sum_list (dict_values (paid L'))"
proof -
  have k: "map fst (paid L) = codes" "map fst (paid L') = codes"
    using assms by (simp_all add: ledger_ok_def grows_def)
  have "sum_list (map (tally (paid L)) codes) \<le> sum_list (map (tally (paid L')) codes)"
    using assms(2) by (intro sum_list_mono) (simp add: grows_def)
  then show ?thesis
    using sum_values_tally [of "paid L"] sum_values_tally [of "paid L'"] distinct_codes
    by (simp add: k)
qed

lemma parse_lines_six:
  assumes "l \<in> set (parse_ticket_lines content)"
  shows "length (line_nums l) = 6"
proof -
  from assms obtain r where "parse_line r = Some l"
    unfolding parse_ticket_lines_def set_map_filter by auto
  then show ?thesis by (rule parse_line_Some(3))
qed

lemma do_draw_once_grows:
  assumes "rng_ok R" "ledger_inv s"
  shows "\<exists>s'. do_draw_once R s = Inr s' \<and> ledger_inv s' \<and>
            (\<forall>k. tally (stats s) k \<le> tally (stats s') k) \<and>
            (\<forall>k. tally (paid s) k \<le> tally (paid s') k) \<and>
            spend s \<le> spend s' \<and> returns s \<le> returns s'"
proof (cases "parse_ticket_lines (ticket_text s) = []")
  case True
  then show ?thesis
    using assms(2) by (simp add: do_draw_once_def set_status_def ledger_inv_def ledger_ok_def)
next
  case False
  define lines where "lines = parse_ticket_lines (ticket_text s)"
  define balls where "balls = shuffle_out R (rng_calls s) [1..40]"
  define main6 where "main6 = take 6 balls"
  define pb where "pb = randrange_out R (rng_calls s + 1) 1 11"
  define s2 where "s2 = s\<lparr>draw_number := draw_number s + 1, rng_calls := rng_calls s + 2,
                       last_draw := Some (draw_number s + 1, main6, balls ! 6, pb)\<rparr>"
  have d: "draw_lotto R (rng_calls s) = Inr ((main6, balls ! 6, pb), rng_calls s + 2)"
    unfolding main6_def balls_def pb_def by (rule draw_lotto_eq [OF assms(1)])
  have "mset balls = mset [1..40]"
    using assms(1) by (simp add: rng_ok_def balls_def del: upto_rec_numeral)
  then have "length balls = 40" by (rule shuffled_pool(1))
  then have m4: "4 \<le> length main6" by (simp add: main6_def)
  have l4: "\<forall>line \<in> set lines. 4 \<le> length (line_nums line)"
    using parse_lines_six unfolding lines_def by fastforce
  have ok: "ledger_ok s" and r: "returns s = sum_list (dict_values (paid s))"
    using assms(2) by (simp_all add: ledger_inv_def)
  have ok2: "ledger_ok s2" using ok by (simp add: s2_def ledger_ok_def)
  obtain total s3 where t:
    "score_all lines main6 (balls ! 6) pb (strike_var s2) 0 s2 = Inr (total, s3)"
    "grows s2 s3" "0 \<le> total"
    using score_all_grows [OF ok2 l4 m4, of "balls ! 6" pb "strike_var s2" 0] by blast
  obtain X Y where s3: "s3 = s2\<lparr>stats := X, paid := Y\<rparr>"
    using t(2) unfolding grows_def by blast
  define s4 where "s4 = refresh_paid_labels (s3\<lparr>spend := spend s3 + total\<rparr>)"
  define s' where "s' = set_status (DrawDone (length lines) total (returns s4 - spend s4)) s4"
  have t': "score_all lines main6 (balls ! 6) pb (strike_var s) 0
              (s\<lparr>draw_number := draw_number s + 1, rng_calls := Suc (Suc (rng_calls s)),
                 last_draw := Some (draw_number s + 1, main6, balls ! 6, pb)\<rparr>) =
            Inr (total, s3)"
    using t(1) by (simp add: s2_def)
  have e: "do_draw_once R s = Inr s'"
    using False
    unfolding do_draw_once_def lines_def [symmetric] Let_def
    by (simp add: d t' s4_def s'_def)
  have st: "stats s' = stats s3" "paid s' = paid s3" "spend s' = spend s + total"
    "returns s' = sum_list (dict_values (paid s3))"
    by (simp_all add: s'_def s4_def set_status_def refresh_paid_labels_def s3 s2_def)
  have ok3: "ledger_ok s3" using t(2) by (simp add: grows_def)
  have inv: "ledger_inv s'" using ok3 st by (simp add: ledger_inv_def ledger_ok_def)
  have g: "\<forall>k. tally (stats s) k \<le> tally (stats s') k"
    "\<forall>k. tally (paid s) k \<le> tally (paid s') k"
    using t(2) unfolding st grows_def by (simp_all add: s2_def)
  have "sum_list (dict_values (paid s2)) \<le> sum_list (dict_values (paid s3))"
    by (rule grows_sum [OF ok2 t(2)])
  then have rr: "returns s \<le> returns s'" unfolding st r by (simp add: s2_def)
  have "spend s \<le> spend s'" using t(3) st by simp
  with e inv g rr show ?thesis by blast
qed

lemma ledger_inv_same:
  assumes "ledger_inv s" "stats s' = stats s" "paid s' = paid s" "returns s' = returns s"
  shows "ledger_inv s'"
  using assms by (simp add: ledger_inv_def ledger_ok_def)

lemma add_ticket_line_ledger [simp]:
  "stats (add_ticket_line nums pb s) = stats s"
  "paid (add_ticket_line nums pb s) = paid s"
  "returns (add_ticket_line nums pb s) = returns s"
  by (simp_all add: add_ticket_line_def Let_def split: option.splits)

lemma wheel_lines_ledger [simp]:
  "stats (wheel_lines R combs s) = stats s"
  "paid (wheel_lines R combs s) = paid s"
  "returns (wheel_lines R combs s) = returns s"
  by (induction combs arbitrary: s) simp_all

lemma qp_lines_ledger:
  assumes "qp_lines k R s = Inr s'"
  shows "stats s' = stats s \<and> paid s' = paid s \<and> returns s' = returns s"
  using assms
proof (induction k arbitrary: s)
  case 0
  then show ?case by simp
next
  case (Suc k)
  from Suc.prems obtain smp where smp: "rng_sample R (rng_calls s) [1..40] 6 = Inr smp"
    by (cases "rng_sample R (rng_calls s) [1..40] 6") simp_all
  show ?case
  proof (cases "powerball_var s")
    case True
    with Suc.prems smp have
      "qp_lines k R (add_ticket_line (sort smp) (Some (randrange_out R (rng_calls s + 1) 1 11))
                      (s\<lparr>rng_calls := rng_calls s + 1 + 1\<rparr>)) = Inr s'"
      by (simp add: Let_def)
    from Suc.IH [OF this] show ?thesis by simp
  next
    case False
    with Suc.prems smp have
      "qp_lines k R (add_ticket_line (sort smp) None (s\<lparr>rng_calls := rng_calls s + 1\<rparr>)) = Inr s'"
      by (simp add: Let_def)
    from Suc.IH [OF this] show ?thesis by simp
  qed
qed

lemma initial_app_inv: "ledger_inv initial_app"
  by (simp add: ledger_inv_def ledger_ok_def initial_app_eq dict_values_def comp_def
      sum_zero_values(2))

lemma on_reset_inv:
  assumes "ledger_ok s"
  shows "ledger_inv (on_reset s)"
  using assms
  by (simp add: ledger_inv_def ledger_ok_def on_reset_def refresh_paid_labels_def
      zero_values_comp)

lemma system_wheel_ledger:
  assumes "system_wheel m R s = Inr s'"
  shows "stats s' = stats s \<and> paid s' = paid s \<and> returns s' = returns s"
proof (cases "int (length (V s)) = m")
  case True
  with assms have "s' = set_status
      (SystemProduced m (V s)
         (index_end (ticket_text (wheel_lines R (combinations (V s) 6) s)) -
          index_end (ticket_text s)))
      (wheel_lines R (combinations (V s) 6) s)"
    by (simp add: system_wheel_def Let_def)
  then show ?thesis by (simp add: set_status_def)
next
  case False
  with assms obtain smp where smp: "rng_sample R (rng_calls s) [1..40] m = Inr smp"
    by (cases "rng_sample R (rng_calls s) [1..40] m") (simp_all add: system_wheel_def)
  define s1 where "s1 = s\<lparr>rng_calls := rng_calls s + 1\<rparr>"
  from assms False smp have "s' = set_status
      (SystemProduced m (sort smp)
         (index_end (ticket_text (wheel_lines R (combinations (sort smp) 6) s1)) -
          index_end (ticket_text s1)))
      (wheel_lines R (combinations (sort smp) 6) s1)"
    by (simp add: system_wheel_def Let_def s1_def)
  then show ?thesis by (simp add: set_status_def s1_def)
qed

lemma set_base_numbers_ledger:
  "stats (set_base_numbers answer s) = stats s \<and> paid (set_base_numbers answer s) = paid s \<and>
   returns (set_base_numbers answer s) = returns s"
proof (cases answer)
  case None
  then show ?thesis by (simp add: set_base_numbers_def)
next
  case (Some str)
  define parts where "parts = split_ws (replace_char CHR '','' CHR '' '' str)"
  define vals where "vals = sort (remdups (filter (\<lambda>n. 1 \<le> n \<and> n \<le> 40)
                                             (List.map_filter py_int parts)))"
  have "set_base_numbers answer s = s \<or>
        set_base_numbers answer s =
          set_status (BaseNumbersSet vals)
            (s\<lparr>V := vals, base_numbers_var := ''Base: '' @ join '' '' (map z2 vals)\<rparr>)"
    unfolding set_base_numbers_def Some option.case Let_def parts_def [symmetric]
      vals_def [symmetric]
    by (cases "str = []"; cases "\<exists>p \<in> set parts. py_int p = None"; cases "vals = []")
       (simp_all only: if_True if_False simp_thms)
  then show ?thesis by (elim disjE) (simp_all add: set_status_def)
qed

lemma draw_batch_inv:
  assumes "rng_ok R" "ledger_inv s" "draw_batch k R s = Inr s'"
  shows "ledger_inv s'"
  using assms(2,3)
proof (induction k arbitrary: s)
  case 0
  then show ?case by simp
next
  case (Suc k)
  from do_draw_once_grows [OF assms(1) Suc.prems(1)]
  obtain s1 where s1: "do_draw_once R s = Inr s1" "ledger_inv s1" by blast
  with Suc.prems(2) have "draw_batch k R s1 = Inr s'" by simp
  from Suc.IH [OF s1(2) this] show ?case .
qed

lemma schedule_next_inv:
  assumes "rng_ok R" "ledger_inv s" "schedule_next R aid s = Inr s'"
  shows "ledger_inv s'"
proof (cases "running s")
  case False
  with assms(3) have "s' = s" by (simp add: schedule_next_def)
  with assms(2) show ?thesis by simp
next
  case True
  show ?thesis
  proof (cases "max 1 (speed_var s) \<le> 1000")
    case le: True
    from do_draw_once_grows [OF assms(1,2)]
    obtain s1 where s1: "do_draw_once R s = Inr s1" "ledger_inv s1" by blast
    with assms(3) True le have "s' = s1\<lparr>after_id := Some aid\<rparr>"
      by (simp add: schedule_next_def Let_def)
    with s1(2) show ?thesis by - (rule ledger_inv_same [of s1], simp_all)
  next
    case gt: False
    obtain s1 where s1: "draw_batch (nat (max 1 (max 1 (speed_var s) div 1000))) R s = Inr s1"
      "s' = s1\<lparr>after_id := Some aid\<rparr>"
      using assms(3) True gt
      by (cases "draw_batch (nat (max 1 (max 1 (speed_var s) div 1000))) R s")
         (simp_all add: schedule_next_def Let_def)
    from draw_batch_inv [OF assms(1,2) s1(1)] s1(2) show ?thesis
      by - (rule ledger_inv_same [of s1], simp_all)
  qed
qed

lemma start_autorun_inv:
  assumes "rng_ok R" "ledger_inv s" "start_autorun R aid s = Inr s'"
  shows "ledger_inv s'"
proof (cases "running s")
  case True
  with assms(3) have "s' = s" by (simp add: start_autorun_def)
  with assms(2) show ?thesis by simp
next
  case False
  with assms(3) have e: "schedule_next R aid (s\<lparr>running := True\<rparr>) = Inr s'"
    by (simp add: start_autorun_def)
  have "ledger_inv (s\<lparr>running := True\<rparr>)"
    using assms(2) by - (rule ledger_inv_same [of s], simp_all)
  from schedule_next_inv [OF assms(1) this e] show ?thesis .
qed

lemma draw_batch_grows:
  assumes "rng_ok R" "ledger_inv s"
  shows "\<exists>s'. draw_batch n R s = Inr s' \<and> ledger_inv s' \<and>
            (\<forall>k. tally (stats s) k \<le> tally (stats s') k) \<and>
            (\<forall>k. tally (paid s) k \<le> tally (paid s') k) \<and>
            spend s \<le> spend s' \<and> returns s \<le> returns s'"
  using assms(2)
proof (induction n arbitrary: s)
  case 0
  then show ?case by simp
next
  case (Suc n)
  from do_draw_once_grows [OF assms(1) Suc.prems]
  obtain s1 where s1: "do_draw_once R s = Inr s1" "ledger_inv s1"
    "\<forall>k. tally (stats s) k \<le> tally (stats s1) k"
    "\<forall>k. tally (paid s) k \<le> tally (paid s1) k"
    "spend s \<le> spend s1" "returns s \<le> returns s1"
    by blast
  from Suc.IH [OF s1(2)]
  obtain s2 where s2: "draw_batch n R s1 = Inr s2" "ledger_inv s2"
    "\<forall>k. tally (stats s1) k \<le> tally (stats s2) k"
    "\<forall>k. tally (paid s1) k \<le> tally (paid s2) k"
    "spend s1 \<le> spend s2" "returns s1 \<le> returns s2"
    by blast
  have "draw_batch (Suc n) R s = Inr s2" using s1(1) s2(1) by simp
  moreover have "tally (stats s) k \<le> tally (stats s2) k" for k
    using s1(3) s2(3) by (meson order_trans)
  moreover have "tally (paid s) k \<le> tally (paid s2) k" for k
    using s1(4) s2(4) by (meson order_trans)
  moreover have "spend s \<le> spend s2" "returns s \<le> returns s2"
    using s1(5,6) s2(5,6) by simp_all
  ultimately show ?case using s2(2) by blast
qed

lemma schedule_next_grows:
  assumes "rng_ok R" "ledger_inv s"
  shows "\<exists>s'. schedule_next R aid s = Inr s' \<and> ledger_inv s' \<and>
            (\<forall>k. tally (stats s) k \<le> tally (stats s') k) \<and>
            (\<forall>k. tally (paid s) k \<le> tally (paid s') k) \<and>
            spend s \<le> spend s' \<and> returns s \<le> returns s'"
proof (cases "running s")
  case False
  then have "schedule_next R aid s = Inr s" by (simp add: schedule_next_def)
  with assms(2) show ?thesis by simp
next
  case True
  have "\<exists>s1. schedule_next R aid s = Inr (s1\<lparr>after_id := Some aid\<rparr>) \<and> ledger_inv s1 \<and>
          (\<forall>k. tally (stats s) k \<le> tally (stats s1) k) \<and>
          (\<forall>k. tally (paid s) k \<le> tally (paid s1) k) \<and>
          spend s \<le> spend s1 \<and> returns s \<le> returns s1"
  proof (cases "max 1 (speed_var s) \<le> 1000")
    case le: True
    from do_draw_once_grows [OF assms]
    obtain s1 where s1: "do_draw_once R s = Inr s1" "ledger_inv s1"
      "\<forall>k. tally (stats s) k \<le> tally (stats s1) k"
      "\<forall>k. tally (paid s) k \<le> tally (paid s1) k"
      "spend s \<le> spend s1" "returns s \<le> returns s1"
      by blast
    have "schedule_next R aid s = Inr (s1\<lparr>after_id := Some aid\<rparr>)"
      using True le s1(1) by (simp add: schedule_next_def Let_def)
    with s1 show ?thesis by blast
  next
    case gt: False
    from draw_batch_grows [OF assms, of "nat (max 1 (max 1 (speed_var s) div 1000))"]
    obtain s1 where s1:
      "draw_batch (nat (max 1 (max 1 (speed_var s) div 1000))) R s = Inr s1" "ledger_inv s1"
      "\<forall>k. tally (stats s) k \<le> tally (stats s1) k"
      "\<forall>k. tally (paid s) k \<le> tally (paid s1) k"
      "spend s \<le> spend s1" "returns s \<le> returns s1"
      by blast
    have "schedule_next R aid s = Inr (s1\<lparr>after_id := Some aid\<rparr>)"
      using True gt s1(1) by (simp add: schedule_next_def Let_def)
    with s1 show ?thesis by blast
  qed
  then obtain s1 where s1: "schedule_next R aid s = Inr (s1\<lparr>after_id := Some aid\<rparr>)"
    "ledger_inv s1"
    "\<forall>k. tally (stats s) k \<le> tally (stats s1) k"
    "\<forall>k. tally (paid s) k \<le> tally (paid s1) k"
    "spend s \<le> spend s1" "returns s \<le> returns s1"
    by blast
  have "ledger_inv (s1\<lparr>after_id := Some aid\<rparr>)"
    using s1(2) by - (rule ledger_inv_same [of s1], simp_all)
  with s1 show ?thesis by (intro exI [of _ "s1\<lparr>after_id := Some aid\<rparr>"]) simp
qed

lemma start_autorun_grows:
  assumes "rng_ok R" "ledger_inv s"
  shows "\<exists>s'. start_autorun R aid s = Inr s' \<and> ledger_inv s' \<and>
            (\<forall>k. tally (stats s) k \<le> tally (stats s') k) \<and>
            (\<forall>k. tally (paid s) k \<le> tally (paid s') k) \<and>
            spend s \<le> spend s' \<and> returns s \<le> returns s'"
proof (cases "running s")
  case True
  then have "start_autorun R aid s = Inr s" by (simp add: start_autorun_def)
  with assms(2) show ?thesis by simp
next
  case False
  have "ledger_inv (s\<lparr>running := True\<rparr>)"
    using assms(2) by - (rule ledger_inv_same [of s], simp_all)
  from schedule_next_grows [OF assms(1) this, of aid] False
  show ?thesis by (simp add: start_autorun_def)
qed

lemma reachable_inv:
  assumes "rng_ok R" "reachable R s"
  shows "ledger_inv s"
  using assms(2)
proof (induction rule: reachable.induct)
  case start
  show ?case by (rule initial_app_inv)
next
  case (draw s s')
  from do_draw_once_grows [OF assms(1) draw.IH]
  obtain s'' where "do_draw_once R s = Inr s''" "ledger_inv s''" by blast
  with draw.hyps(2) show ?case by simp
next
  case (reset s)
  then have "ledger_ok s" by (simp add: ledger_inv_def)
  then show ?case by (rule on_reset_inv)
next
  case (quick_picks s s')
  from quick_picks.hyps(2) obtain s1 where "qp_lines 10 R s = Inr s1"
    "s' = set_status AddedQuickPicks s1"
    by (cases "qp_lines 10 R s") (simp_all add: qp10_def del: qp_lines.simps)
  with qp_lines_ledger [of 10 R s s1] quick_picks.IH show ?case
    by - (rule ledger_inv_same [of s], simp_all add: set_status_def del: qp_lines.simps)
next
  case (wheel s m s')
  with system_wheel_ledger [of m R s s'] show ?case
    by - (rule ledger_inv_same [of s], simp_all)
next
  case (base_numbers s answer)
  with set_base_numbers_ledger [of answer s] show ?case
    by - (rule ledger_inv_same [of s], simp_all)
next
  case (clear s)
  then show ?case
    by - (rule ledger_inv_same [of s], simp_all add: clear_wheel_and_base_def set_status_def clear_ticket_def)
next
  case (edit_ticket s t)
  then show ?case by - (rule ledger_inv_same [of s], simp_all)
next
  case (set_controls s sp pv sv)
  then show ?case by - (rule ledger_inv_same [of s], simp_all)
next
  case (start_run s aid s')
  from start_autorun_inv [OF assms(1) start_run.IH start_run.hyps(2)] show ?case .
next
  case (timer_tick s aid s')
  from schedule_next_inv [OF assms(1) timer_tick.IH timer_tick.hyps(3)] show ?case .
next
  case (pause s)
  then show ?case
    by - (rule ledger_inv_same [of s], simp_all add: pause_autorun_def set_status_def)
qed

lemma tables_nonneg:
  "\<forall>a \<in> set (LOTTO_NO_PB @ LOTTO_WITH_PB @ STRIKE_PAYOUT). 0 \<le> a"
  by (simp add: LOTTO_NO_PB_def LOTTO_WITH_PB_def STRIKE_PAYOUT_def)

text \<open>
  C6. In every state the callbacks can reach from program start (single draws, START,
  the timer ticks of a run, PAUSE, resets, quick picks, system wheels, base numbers,
  clearing, edits of the ticket text and of the controls), running or not, the tallies
  have the prize codes of \<open>init_vars\<close> and the returns equal the sum of the amounts paid
  over all prize codes. From such a state one draw cycle returns without error, and in
  the state it leaves no hit count, no amount paid, not the spend and not the returns is
  smaller than before; the returns again equal the sum of the amounts paid. The same
  holds of START and of a timer tick as a whole, which run one draw cycle or a batch of
  them one after the other. Every payout in the three tables is non-negative. On tallies with these prize codes each award, of
  a division 1..7 or of a Strike tier 1..4, returns without error, adds exactly one to
  the hit count of its own code and its table entry, which is not negative, to the
  amount paid under that code, and changes no other code.
\<close>

theorem ledger_monotone:
  assumes "rng_ok R" "reachable R s"
  shows "ledger_ok s \<and> returns s = sum_list (dict_values (paid s)) \<and>
         (\<exists>s'. do_draw_once R s = Inr s' \<and>
            (\<forall>k. tally (stats s) k \<le> tally (stats s') k) \<and>
            (\<forall>k. tally (paid s) k \<le> tally (paid s') k) \<and>
            spend s \<le> spend s' \<and> returns s \<le> returns s' \<and>
            returns s' = sum_list (dict_values (paid s'))) \<and>
         (\<exists>s'. start_autorun R aid s = Inr s' \<and>
            (\<forall>k. tally (stats s) k \<le> tally (stats s') k) \<and>
            (\<forall>k. tally (paid s) k \<le> tally (paid s') k) \<and>
            spend s \<le> spend s' \<and> returns s \<le> returns s' \<and>
            returns s' = sum_list (dict_values (paid s'))) \<and>
         (\<exists>s'. schedule_next R aid s = Inr s' \<and>
            (\<forall>k. tally (stats s) k \<le> tally (stats s') k) \<and>
            (\<forall>k. tally (paid s) k \<le> tally (paid s') k) \<and>
            spend s \<le> spend s' \<and> returns s \<le> returns s' \<and>
            returns s' = sum_list (dict_values (paid s'))) \<and>
         (\<forall>a \<in> set (LOTTO_NO_PB @ LOTTO_WITH_PB @ STRIKE_PAYOUT). 0 \<le> a) \<and>
         (ledger_ok L \<and> 1 \<le> d \<and> d \<le> 7 \<longrightarrow>
            (\<exists>L1. award_lotto d pbm L = Inr L1 \<and> ledger_ok L1 \<and>
               hits_gained L L1 lotto_codes = one_at 7 (nat (d - 1)) 1 \<and>
               paid_gained L L1 lotto_codes =
                 one_at 7 (nat (d - 1))
                   ((if pbm then LOTTO_WITH_PB else LOTTO_NO_PB) ! nat (d - 1)) \<and>
               0 \<le> (if pbm then LOTTO_WITH_PB else LOTTO_NO_PB) ! nat (d - 1) \<and>
               hits_gained L L1 strike_codes = replicate 4 0 \<and>
               paid_gained L L1 strike_codes = replicate 4 0)) \<and>
         (ledger_ok L \<and> 1 \<le> h \<and> h \<le> 4 \<longrightarrow>
            (\<exists>L1. award_strike h L = Inr L1 \<and> ledger_ok L1 \<and>
               hits_gained L L1 strike_codes = one_at 4 (nat (h - 1)) 1 \<and>
               paid_gained L L1 strike_codes = one_at 4 (nat (h - 1)) (STRIKE_PAYOUT ! nat (h - 1)) \<and>
               0 \<le> STRIKE_PAYOUT ! nat (h - 1) \<and>
               hits_gained L L1 lotto_codes = replicate 7 0 \<and>
               paid_gained L L1 lotto_codes = replicate 7 0))"
proof -
  note i = reachable_inv [OF assms]
  have a: "ledger_ok s" "returns s = sum_list (dict_values (paid s))"
    using i by (simp_all add: ledger_inv_def)
  have b: "\<exists>s'. do_draw_once R s = Inr s' \<and>
            (\<forall>k. tally (stats s) k \<le> tally (stats s') k) \<and>
            (\<forall>k. tally (paid s) k \<le> tally (paid s') k) \<and>
            spend s \<le> spend s' \<and> returns s \<le> returns s' \<and>
            returns s' = sum_list (dict_values (paid s'))"
    using do_draw_once_grows [OF assms(1) i] unfolding ledger_inv_def by blast
  have b1: "\<exists>s'. start_autorun R aid s = Inr s' \<and>
            (\<forall>k. tally (stats s) k \<le> tally (stats s') k) \<and>
            (\<forall>k. tally (paid s) k \<le> tally (paid s') k) \<and>
            spend s \<le> spend s' \<and> returns s \<le> returns s' \<and>
            returns s' = sum_list (dict_values (paid s'))"
    using start_autorun_grows [OF assms(1) i, of aid] unfolding ledger_inv_def by blast
  have b2: "\<exists>s'. schedule_next R aid s = Inr s' \<and>
            (\<forall>k. tally (stats s) k \<le> tally (stats s') k) \<and>
            (\<forall>k. tally (paid s) k \<le> tally (paid s') k) \<and>
            spend s \<le> spend s' \<and> returns s \<le> returns s' \<and>
            returns s' = sum_list (dict_values (paid s'))"
    using schedule_next_grows [OF assms(1) i, of aid] unfolding ledger_inv_def by blast
  have c: "\<exists>L1. award_lotto d pbm L = Inr L1 \<and> ledger_ok L1 \<and>
               hits_gained L L1 lotto_codes = one_at 7 (nat (d - 1)) 1 \<and>
               paid_gained L L1 lotto_codes =
                 one_at 7 (nat (d - 1))
                   ((if pbm then LOTTO_WITH_PB else LOTTO_NO_PB) ! nat (d - 1)) \<and>
               0 \<le> (if pbm then LOTTO_WITH_PB else LOTTO_NO_PB) ! nat (d - 1) \<and>
               hits_gained L L1 strike_codes = replicate 4 0 \<and>
               paid_gained L L1 strike_codes = replicate 4 0"
    if "ledger_ok L \<and> 1 \<le> d \<and> d \<le> 7"
  proof -
    from that have t: "ledger_ok L" "1 \<le> d" "d \<le> 7" by simp_all
    from award_lotto_gained [OF t, of pbm] payouts_nonneg [OF t(2,3), of pbm]
    show ?thesis by blast
  qed
  have e: "\<exists>L1. award_strike h L = Inr L1 \<and> ledger_ok L1 \<and>
               hits_gained L L1 strike_codes = one_at 4 (nat (h - 1)) 1 \<and>
               paid_gained L L1 strike_codes = one_at 4 (nat (h - 1)) (STRIKE_PAYOUT ! nat (h - 1)) \<and>
               0 \<le> STRIKE_PAYOUT ! nat (h - 1) \<and>
               hits_gained L L1 lotto_codes = replicate 7 0 \<and>
               paid_gained L L1 lotto_codes = replicate 7 0"
    if "ledger_ok L \<and> 1 \<le> h \<and> h \<le> 4"
  proof -
    from that have t: "ledger_ok L" "1 \<le> h" "h \<le> 4" by simp_all
    from award_strike_gained [OF t] strike_payouts_nonneg [OF t(2,3)]
    show ?thesis by blast
  qed
  from a b b1 b2 tables_nonneg c e show ?thesis by (intro conjI impI)
qed

lemma one_line_reachable: "reachable id_rng one_line_app"
proof -
  have "reachable id_rng (initial_app\<lparr>ticket_text := ''01 02 03 04 05 06 | PB 01''\<rparr>)"
    by (intro reachable.edit_ticket reachable.start)
  then have "reachable id_rng
               (initial_app\<lparr>ticket_text := ''01 02 03 04 05 06 | PB 01''\<rparr>
                  \<lparr>speed_var := DEFAULT_SPEED, powerball_var := False, strike_var := True\<rparr>)"
    by (rule reachable.set_controls)
  then show ?thesis by (simp add: one_line_app_def initial_app_eq)
qed

lemma running_app_start: "start_autorun id_rng ''after#1'' one_line_app = Inr running_app"
  by code_simp

lemma running_app_reachable: "reachable id_rng running_app"
  by (rule reachable.start_run [OF one_line_reachable running_app_start])

lemma running_app_draw:
  "do_draw_once id_rng running_app =
     Inr \<lparr>stats = [(''D1'', 11), (''D2'', 0), (''D3'', 0), (''D4'', 0), (''D5'', 0),
                  (''D6'', 0), (''D7'', 0), (''S1'', 0), (''S2'', 0), (''S3'', 0), (''S4'', 11)],
          paid = [(''D1'', 330000000), (''D2'', 0), (''D3'', 0), (''D4'', 0), (''D5'', 0),
                  (''D6'', 0), (''D7'', 0), (''S1'', 0), (''S2'', 0), (''S3'', 0),
                  (''S4'', 11000000)],
          ticket_text = ''01 02 03 04 05 06 | PB 01'', spend = 27.5, returns = 341000000,
          draw_number = 11, speed_var = 10000, powerball_var = False, strike_var = True,
          base_numbers_var = [], V = [], running = True, after_id = Some ''after#1'',
          status_var = DrawDone 1 2.5 340999972.5,
          last_draw = Some (11, [1, 2, 3, 4, 5, 6], 7, 1), rng_calls = 22\<rparr>"
  by code_simp

lemma running_app_tick:
  "schedule_next id_rng ''after#2'' running_app =
     Inr \<lparr>stats = [(''D1'', 20), (''D2'', 0), (''D3'', 0), (''D4'', 0), (''D5'', 0),
                  (''D6'', 0), (''D7'', 0), (''S1'', 0), (''S2'', 0), (''S3'', 0), (''S4'', 20)],
          paid = [(''D1'', 600000000), (''D2'', 0), (''D3'', 0), (''D4'', 0), (''D5'', 0),
                  (''D6'', 0), (''D7'', 0), (''S1'', 0), (''S2'', 0), (''S3'', 0),
                  (''S4'', 20000000)],
          ticket_text = ''01 02 03 04 05 06 | PB 01'', spend = 50, returns = 620000000,
          draw_number = 20, speed_var = 10000, powerball_var = False, strike_var = True,
          base_numbers_var = [], V = [], running = True, after_id = Some ''after#2'',
          status_var = DrawDone 1 2.5 619999950,
          last_draw = Some (20, [1, 2, 3, 4, 5, 6], 7, 1), rng_calls = 40\<rparr>"
  by code_simp

theorem ledger_monotone_witness:
  "rng_ok id_rng \<and> reachable id_rng running_app \<and> running running_app \<and>
   ledger_ok ledger0 \<and> (1::int) \<le> 7 \<and> (7::int) \<le> 7 \<and> (1::int) \<le> 2 \<and> (2::int) \<le> 4 \<and>
   returns running_app = sum_list (dict_values (paid running_app)) \<and>
   (\<exists>s'. do_draw_once id_rng running_app = Inr s' \<and>
      tally (stats running_app) ''D1'' = 10 \<and> tally (stats s') ''D1'' = 11 \<and>
      tally (paid running_app) ''D1'' = 300000000 \<and> tally (paid s') ''D1'' = 330000000 \<and>
      spend running_app = 25 \<and> spend s' = 27.5 \<and>
      returns running_app = 310000000 \<and> returns s' = 341000000 \<and>
      spend running_app \<le> spend s' \<and> returns running_app \<le> returns s' \<and>
      returns s' = sum_list (dict_values (paid s'))) \<and>
   (\<exists>s'. schedule_next id_rng ''after#2'' running_app = Inr s' \<and>
      after_id s' = Some ''after#2'' \<and> draw_number s' = 20 \<and>
      tally (stats s') ''D1'' = 20 \<and> tally (paid s') ''D1'' = 600000000 \<and>
      spend s' = 50 \<and> returns s' = 620000000 \<and>
      spend running_app \<le> spend s' \<and> returns running_app \<le> returns s' \<and>
      returns s' = sum_list (dict_values (paid s'))) \<and>
   (\<exists>L1. award_lotto 7 False ledger0 = Inr L1 \<and>
      hits_gained ledger0 L1 lotto_codes = [0, 0, 0, 0, 0, 0, 1] \<and>
      paid_gained ledger0 L1 lotto_codes = [0, 0, 0, 0, 0, 0, 2.80] \<and>
      hits_gained ledger0 L1 strike_codes = [0, 0, 0, 0]) \<and>
   (\<exists>L1. award_strike 2 ledger0 = Inr L1 \<and>
      hits_gained ledger0 L1 strike_codes = [0, 1, 0, 0] \<and>
      paid_gained ledger0 L1 strike_codes = [0, 77, 0, 0] \<and>
      hits_gained ledger0 L1 lotto_codes = [0, 0, 0, 0, 0, 0, 0])"
proof -
  note m = ledger_monotone [OF id_rng_ok running_app_reachable,
    where aid = "''after#2''" and L = ledger0 and d = 7 and pbm = False and h = 2]
  from m obtain s' where s': "do_draw_once id_rng running_app = Inr s'"
    "spend running_app \<le> spend s'" "returns running_app \<le> returns s'"
    "returns s' = sum_list (dict_values (paid s'))"
    by (elim conjE exE)
  have v: "tally (stats s') ''D1'' = 11" "tally (paid s') ''D1'' = 330000000"
    "spend s' = 27.5" "returns s' = 341000000"
    using s'(1) unfolding running_app_draw by (auto simp: tally_def)
  have w: "tally (stats running_app) ''D1'' = 10" "tally (paid running_app) ''D1'' = 300000000"
    "spend running_app = 25" "returns running_app = 310000000" "running running_app"
    by (simp_all add: running_app_def tally_def)
  have 1: "\<exists>s'. do_draw_once id_rng running_app = Inr s' \<and>
      tally (stats running_app) ''D1'' = 10 \<and> tally (stats s') ''D1'' = 11 \<and>
      tally (paid running_app) ''D1'' = 300000000 \<and> tally (paid s') ''D1'' = 330000000 \<and>
      spend running_app = 25 \<and> spend s' = 27.5 \<and>
      returns running_app = 310000000 \<and> returns s' = 341000000 \<and>
      spend running_app \<le> spend s' \<and> returns running_app \<le> returns s' \<and>
      returns s' = sum_list (dict_values (paid s'))"
    using s' v w by (intro exI [of _ s'] conjI)
  from m obtain t' where t': "schedule_next id_rng ''after#2'' running_app = Inr t'"
    "spend running_app \<le> spend t'" "returns running_app \<le> returns t'"
    "returns t' = sum_list (dict_values (paid t'))"
    by blast
  have u: "after_id t' = Some ''after#2''" "draw_number t' = 20"
    "tally (stats t') ''D1'' = 20" "tally (paid t') ''D1'' = 600000000"
    "spend t' = 50" "returns t' = 620000000"
    using t'(1) unfolding running_app_tick by (auto simp: tally_def)
  have 5: "\<exists>s'. schedule_next id_rng ''after#2'' running_app = Inr s' \<and>
      after_id s' = Some ''after#2'' \<and> draw_number s' = 20 \<and>
      tally (stats s') ''D1'' = 20 \<and> tally (paid s') ''D1'' = 600000000 \<and>
      spend s' = 50 \<and> returns s' = 620000000 \<and>
      spend running_app \<le> spend s' \<and> returns running_app \<le> returns s' \<and>
      returns s' = sum_list (dict_values (paid s'))"
    using t' u by (intro exI [of _ t'] conjI)
  have 2: "returns running_app = sum_list (dict_values (paid running_app))"
    using m by (elim conjE)
  have k: "ledger_ok ledger0 \<and> (1::int) \<le> 7 \<and> (7::int) \<le> 7"
    "ledger_ok ledger0 \<and> (1::int) \<le> 2 \<and> (2::int) \<le> 4"
    using ledger0_ok by simp_all
  from m have "ledger_ok ledger0 \<and> (1::int) \<le> 7 \<and> (7::int) \<le> 7 \<longrightarrow>
     (\<exists>L1. award_lotto 7 False ledger0 = Inr L1 \<and> ledger_ok L1 \<and>
               hits_gained ledger0 L1 lotto_codes = one_at 7 (nat (7 - 1)) 1 \<and>
               paid_gained ledger0 L1 lotto_codes =
                 one_at 7 (nat (7 - 1))
                   ((if False then LOTTO_WITH_PB else LOTTO_NO_PB) ! nat (7 - 1)) \<and>
               0 \<le> (if False then LOTTO_WITH_PB else LOTTO_NO_PB) ! nat (7 - 1) \<and>
               hits_gained ledger0 L1 strike_codes = replicate 4 0 \<and>
               paid_gained ledger0 L1 strike_codes = replicate 4 0)"
    by (elim conjE)
  with k(1) obtain L1 where L1: "award_lotto 7 False ledger0 = Inr L1"
    "hits_gained ledger0 L1 lotto_codes = one_at 7 (nat (7 - 1)) 1"
    "paid_gained ledger0 L1 lotto_codes =
       one_at 7 (nat (7 - 1)) ((if False then LOTTO_WITH_PB else LOTTO_NO_PB) ! nat (7 - 1))"
    "hits_gained ledger0 L1 strike_codes = replicate 4 0"
    by blast
  have 3: "\<exists>L1. award_lotto 7 False ledger0 = Inr L1 \<and>
      hits_gained ledger0 L1 lotto_codes = [0, 0, 0, 0, 0, 0, 1] \<and>
      paid_gained ledger0 L1 lotto_codes = [0, 0, 0, 0, 0, 0, 2.80] \<and>
      hits_gained ledger0 L1 strike_codes = [0, 0, 0, 0]"
    using L1 by (intro exI [of _ L1]) (simp add: one_at_7 zeros LOTTO_NO_PB_def)
  from m have "ledger_ok ledger0 \<and> (1::int) \<le> 2 \<and> (2::int) \<le> 4 \<longrightarrow>
     (\<exists>L1. award_strike 2 ledger0 = Inr L1 \<and> ledger_ok L1 \<and>
               hits_gained ledger0 L1 strike_codes = one_at 4 (nat (2 - 1)) 1 \<and>
               paid_gained ledger0 L1 strike_codes =
                 one_at 4 (nat (2 - 1)) (STRIKE_PAYOUT ! nat (2 - 1)) \<and>
               0 \<le> STRIKE_PAYOUT ! nat (2 - 1) \<and>
               hits_gained ledger0 L1 lotto_codes = replicate 7 0 \<and>
               paid_gained ledger0 L1 lotto_codes = replicate 7 0)"
    by (elim conjE)
  with k(2) obtain L2 where L2: "award_strike 2 ledger0 = Inr L2"
    "hits_gained ledger0 L2 strike_codes = one_at 4 (nat (2 - 1)) 1"
    "paid_gained ledger0 L2 strike_codes = one_at 4 (nat (2 - 1)) (STRIKE_PAYOUT ! nat (2 - 1))"
    "hits_gained ledger0 L2 lotto_codes = replicate 7 0"
    by blast
  have 4: "\<exists>L1. award_strike 2 ledger0 = Inr L1 \<and>
      hits_gained ledger0 L1 strike_codes = [0, 1, 0, 0] \<and>
      paid_gained ledger0 L1 strike_codes = [0, 77, 0, 0] \<and>
      hits_gained ledger0 L1 lotto_codes = [0, 0, 0, 0, 0, 0, 0]"
    using L2 by (intro exI [of _ L2]) (simp add: one_at_4 zeros STRIKE_PAYOUT_def)
  from id_rng_ok running_app_reachable w(5) ledger0_ok 1 2 5 3 4 show ?thesis by simp
qed

subsection \<open>Writing a line and reading it back\<close>

lemma digit_table:
  "list_all (\<lambda>c. \<not> isspace c \<and> \<not> is_linebreak c \<and> c \<noteq> CHR 0x09 \<and> c \<noteq> CHR ''|'' \<and>
                 c \<noteq> CHR '','' \<and> c \<noteq> CHR ''#'' \<and> c \<noteq> CHR ''P'' \<and> upper_char c = c)
     ''0123456789''"
  by code_simp

lemma digit_facts:
  assumes "isdigit c"
  shows "\<not> isspace c" "\<not> is_linebreak c" "c \<noteq> CHR 0x09" "c \<noteq> CHR ''|''" "c \<noteq> CHR '',''"
    "c \<noteq> CHR ''#''" "c \<noteq> CHR ''P''" "upper_char c = c"
  using assms digit_table unfolding list_all_iff isdigit_def by blast+

lemma z2_table:
  "list_all (\<lambda>n. py_int (z2 n) = Some n \<and> digits_only (z2 n)) [1..40]"
  unfolding digits_only_def list_all_iff [symmetric] by code_simp

lemma z2_facts:
  assumes "1 \<le> n" "n \<le> 40"
  shows "py_int (z2 n) = Some n" "digits_only (z2 n)"
proof -
  have "n \<in> set [1..40]" using assms by simp
  with z2_table show "py_int (z2 n) = Some n" "digits_only (z2 n)"
    unfolding list_all_iff by blast+
qed

lemma split_from_sep:
  assumes "isspace c"
  shows "split_from cur (x @ c # rest) = split_from cur x @ split_from [] rest"
  using assms by (induction x arbitrary: cur) simp_all

lemma split_from_token:
  assumes "\<forall>c \<in> set t. \<not> isspace c"
  shows "split_from cur t = (if cur @ t = [] then [] else [cur @ t])"
  using assms by (induction t arbitrary: cur) simp_all

lemma split_ws_sep:
  "isspace c \<Longrightarrow> split_ws (x @ c # rest) = split_ws x @ split_ws rest"
  by (simp add: split_ws_def split_from_sep)

lemma split_ws_token: "digits_only t \<Longrightarrow> split_ws t = [t]"
  using split_from_token [of t "[]"] digit_facts(1)
  by (auto simp: split_ws_def digits_only_def)

lemma strip_clean:
  assumes "s \<noteq> []" "\<not> isspace (hd s)" "\<not> isspace (last s)" "\<forall>c \<in> set ws. isspace c"
  shows "strip (s @ ws) = s"
proof -
  obtain h t where s: "s = h # t" using assms(1) by (cases s) auto
  have 1: "dropWhile isspace (s @ ws) = s @ ws" using assms(2) by (simp add: s)
  have "rev s \<noteq> []" "\<not> isspace (hd (rev s))"
    using assms(1,3) by (simp_all add: hd_rev)
  then have 3: "dropWhile isspace (rev s) = rev s" by (cases "rev s") auto
  have "dropWhile isspace (rev ws @ rev s) = dropWhile isspace (rev s)"
    using assms(4) by (intro dropWhile_append2) simp
  then show ?thesis unfolding strip_def 1 by (simp add: 3)
qed

lemma splitlines_plain:
  assumes "\<forall>c \<in> set s. \<not> is_linebreak c"
  shows "splitlines_from cur s = (if cur @ s = [] then [] else [cur @ s])"
  using assms
proof (induction s arbitrary: cur)
  case Nil
  then show ?case by simp
next
  case (Cons c s)
  then have "c \<noteq> CHR 0x0D" by (auto simp: is_linebreak_def)
  with Cons show ?case by simp
qed

lemma digits_only_upper: "digits_only t \<Longrightarrow> upper t = t"
  unfolding upper_def digits_only_def using digit_facts(8) by (intro map_idI) auto

lemma digits_only_not_pb: "digits_only t \<Longrightarrow> \<not> startswith t ''PB''"
proof
  assume d: "digits_only t" and "startswith t ''PB''"
  then obtain r where "t = CHR ''P'' # r" by (cases t) (auto simp: startswith_def)
  with d digit_facts(7) [of "CHR ''P''"] show False by (auto simp: digits_only_def)
qed

lemma scan_numbers:
  assumes "\<forall>n \<in> set ns. 1 \<le> n \<and> n \<le> 40"
  shows "scan_tokens (map z2 ns @ rest) acc pb = scan_tokens rest (acc @ ns) pb"
  using assms
proof (induction ns arbitrary: acc)
  case Nil
  then show ?case by simp
next
  case (Cons n ns)
  then have n: "py_int (z2 n) = Some n" "digits_only (z2 n)"
    by (simp_all add: z2_facts)
  have "scan_tokens (z2 n # map z2 ns @ rest) acc pb =
          scan_tokens (map z2 ns @ rest) (acc @ [n]) pb"
    by (simp add: Let_def digits_only_upper [OF n(2)] digits_only_not_pb [OF n(2)] n(1))
  with Cons show ?case by simp
qed

lemma upper_PB: "upper ''PB'' = ''PB''"
  by code_simp

lemma scan_pb:
  assumes "1 \<le> p" "p \<le> 10"
  shows "scan_tokens [''PB'', z2 p] acc pb = (acc, Some p)"
proof -
  have "py_int (z2 p) = Some p" using assms by (intro z2_facts) auto
  then show ?thesis by (simp add: Let_def upper_PB startswith_def)
qed

lemma split_ws_join:
  assumes "\<forall>t \<in> set ts. digits_only t"
  shows "split_ws (join '' '' ts) = ts"
  using assms
proof (induction "'' ''" ts rule: join.induct)
  case 1
  then show ?case by (simp add: split_ws_def)
next
  case (2 x)
  then show ?case by (simp add: split_ws_token)
next
  case (3 x y ys)
  have "isspace CHR '' ''" by (simp add: isspace_def)
  from split_ws_sep [OF this, of x "join '' '' (y # ys)"] 3 show ?case
    by (simp add: split_ws_token)
qed

lemma join_digits:
  assumes "ts \<noteq> []" "\<forall>t \<in> set ts. digits_only t"
  shows "join '' '' ts \<noteq> [] \<and> isdigit (hd (join '' '' ts)) \<and> isdigit (last (join '' '' ts)) \<and>
         (\<forall>c \<in> set (join '' '' ts). isdigit c \<or> c = CHR '' '')"
  using assms
proof (induction "'' ''" ts rule: join.induct)
  case 1
  then show ?case by simp
next
  case (2 x)
  then have x: "x \<noteq> []" "\<forall>c \<in> set x. isdigit c" by (simp_all add: digits_only_def)
  then have "hd x \<in> set x" "last x \<in> set x" by simp_all
  with x show ?case by simp
next
  case (3 x y ys)
  then have x: "x \<noteq> []" "\<forall>c \<in> set x. isdigit c" by (simp_all add: digits_only_def)
  then have h: "hd x \<in> set x" by simp
  from 3 have r: "join '' '' (y # ys) \<noteq> []" "isdigit (last (join '' '' (y # ys)))"
    "\<forall>c \<in> set (join '' '' (y # ys)). isdigit c \<or> c = CHR '' ''"
    by simp_all
  have "join '' '' (x # y # ys) = x @ CHR '' '' # join '' '' (y # ys)" by simp
  with x h r show ?case by auto
qed

lemma replace_char_id: "a \<notin> set s \<Longrightarrow> replace_char a b s = s"
  unfolding replace_char_def by (intro map_idI) auto

lemma replace_char_append:
  "replace_char a b (x @ y) = replace_char a b x @ replace_char a b y"
  by (simp add: replace_char_def)

lemma no_bar_comma:
  assumes "\<forall>c \<in> set s. isdigit c \<or> c = CHR '' ''"
  shows "CHR ''|'' \<notin> set s" "CHR '','' \<notin> set s"
  using assms digit_facts(4) [of "CHR ''|''"] digit_facts(5) [of "CHR '',''"] by auto

lemma split_pb_suffix:
  assumes "digits_only z"
  shows "split_ws (''  PB '' @ z) = [''PB'', z]"
proof -
  have "split_from ''PB'' (CHR '' '' # z) = ''PB'' # split_from [] z"
    by (simp add: isspace_def)
  moreover have "split_from [] z = [z]"
    using split_ws_token [OF assms] by (simp add: split_ws_def)
  ultimately show ?thesis by (simp add: split_ws_def isspace_def)
qed

lemma left_tokens:
  fixes ns :: "int list" and pb :: "int option"
  assumes "ns \<noteq> []" "\<forall>n \<in> set ns. 1 \<le> n \<and> n \<le> 40"
    and "case pb of None \<Rightarrow> True | Some p \<Rightarrow> 1 \<le> p \<and> p \<le> 10"
  defines "left \<equiv> (case pb of None \<Rightarrow> join '' '' (map z2 ns)
                     | Some p \<Rightarrow> join '' '' (map z2 ns) @ '' | PB '' @ z2 p)"
  shows "left \<noteq> [] \<and> isdigit (hd left) \<and> isdigit (last left) \<and>
         (\<forall>c \<in> set left. c \<noteq> CHR 0x09 \<and> \<not> is_linebreak c) \<and>
         split_ws (replace_char CHR '','' CHR '' '' (replace_char CHR ''|'' CHR '' '' left)) =
           map z2 ns @ (case pb of None \<Rightarrow> [] | Some p \<Rightarrow> [''PB'', z2 p])"
proof -
  define L where "L = join '' '' (map z2 ns)"
  have d: "\<forall>t \<in> set (map z2 ns). digits_only t" using assms(2) by (auto simp: z2_facts)
  have L: "L \<noteq> []" "isdigit (hd L)" "isdigit (last L)" "\<forall>c \<in> set L. isdigit c \<or> c = CHR '' ''"
    using join_digits [of "map z2 ns"] assms(1) d unfolding L_def by simp_all
  have Lc: "\<forall>c \<in> set L. c \<noteq> CHR 0x09 \<and> \<not> is_linebreak c"
  proof
    fix c assume "c \<in> set L"
    with L(4) have "isdigit c \<or> c = CHR '' ''" by blast
    then show "c \<noteq> CHR 0x09 \<and> \<not> is_linebreak c"
      using digit_facts(2,3) [of c] by (auto simp: is_linebreak_def)
  qed
  have Lr: "replace_char CHR '','' CHR '' '' (replace_char CHR ''|'' CHR '' '' L) = L"
    using no_bar_comma [OF L(4)] by (simp add: replace_char_id)
  have Ls: "split_ws L = map z2 ns" unfolding L_def by (rule split_ws_join [OF d])
  show ?thesis
  proof (cases pb)
    case None
    then have "left = L" by (simp add: left_def L_def)
    with L Lc Lr Ls None show ?thesis by simp
  next
    case (Some p)
    then have p: "1 \<le> p" "p \<le> 10" using assms(3) by simp_all
    then have z: "digits_only (z2 p)" by (intro z2_facts) auto
    then have zc: "z2 p \<noteq> []" "\<forall>c \<in> set (z2 p). isdigit c" by (simp_all add: digits_only_def)
    have zl: "isdigit (last (z2 p))" using zc last_in_set [of "z2 p"] by blast
    have left: "left = L @ '' | PB '' @ z2 p" using Some by (simp add: left_def L_def)
    have zr: "replace_char CHR '','' CHR '' '' (replace_char CHR ''|'' CHR '' '' (z2 p)) = z2 p"
      using no_bar_comma [of "z2 p"] zc by (simp add: replace_char_id)
    have r: "replace_char CHR '','' CHR '' '' (replace_char CHR ''|'' CHR '' '' left) =
               L @ CHR '' '' # (''  PB '' @ z2 p)"
      unfolding left replace_char_append Lr zr by (simp add: replace_char_def)
    have sp: "isspace CHR '' ''" by (simp add: isspace_def)
    have t: "split_ws (replace_char CHR '','' CHR '' '' (replace_char CHR ''|'' CHR '' '' left)) =
               map z2 ns @ [''PB'', z2 p]"
      unfolding r split_ws_sep [OF sp] Ls split_pb_suffix [OF z] ..
    have c: "\<forall>c \<in> set left. c \<noteq> CHR 0x09 \<and> \<not> is_linebreak c"
    proof
      fix c assume "c \<in> set left"
      then have "c \<in> set L \<or> c \<in> set '' | PB '' \<or> c \<in> set (z2 p)" by (auto simp: left)
      then show "c \<noteq> CHR 0x09 \<and> \<not> is_linebreak c"
        using Lc zc digit_facts(2,3) [of c] by (auto simp: is_linebreak_def)
    qed
    have "left \<noteq> []" "hd left = hd L" "last left = last (z2 p)"
      using L(1) zc(1) by (simp_all add: left)
    with L(2) zl c t Some show ?thesis by simp
  qed
qed

lemma startswith_hash: "s \<noteq> [] \<Longrightarrow> isdigit (hd s) \<Longrightarrow> \<not> startswith s ''#''"
  using digit_facts(6) [of "hd s"] by (cases s) (auto simp: startswith_def)

lemma parse_line_emitted:
  assumes "line_ok line"
  defines "left \<equiv> (case line_pb line of None \<Rightarrow> join '' '' (map z2 (line_nums line))
                     | Some p \<Rightarrow> join '' '' (map z2 (line_nums line)) @ '' | PB '' @ z2 p)"
  assumes raw: "raw = left \<or> raw = left @ CHR 0x09 # join '' '' (map z2 (take 4 (line_nums line)))"
  shows "raw \<noteq> [] \<and> \<not> isspace (hd raw) \<and> \<not> isspace (last raw) \<and>
         (\<forall>c \<in> set raw. \<not> is_linebreak c) \<and> parse_line raw = Some line"
proof -
  define ns where "ns = line_nums line"
  have ns: "length ns = 6" "ns \<noteq> []" "\<forall>n \<in> set ns. 1 \<le> n \<and> n \<le> 40"
    and pb: "case line_pb line of None \<Rightarrow> True | Some p \<Rightarrow> 1 \<le> p \<and> p \<le> 10"
    using assms(1) unfolding line_ok_def ns_def by (simp_all, force)
  note lt = left_tokens [OF ns(2,3) pb, folded left_def [unfolded ns_def [symmetric]]]
  from lt have l: "left \<noteq> []" "isdigit (hd left)" "isdigit (last left)"
    "\<forall>c \<in> set left. c \<noteq> CHR 0x09 \<and> \<not> is_linebreak c"
    "split_ws (replace_char CHR '','' CHR '' '' (replace_char CHR ''|'' CHR '' '' left)) =
       map z2 ns @ (case line_pb line of None \<Rightarrow> [] | Some p \<Rightarrow> [''PB'', z2 p])"
    by blast+
  define right where "right = join '' '' (map z2 (take 4 ns))"
  have "\<forall>t \<in> set (map z2 (take 4 ns)). digits_only t"
  proof
    fix t assume "t \<in> set (map z2 (take 4 ns))"
    then obtain n where "n \<in> set (take 4 ns)" "t = z2 n" by auto
    with ns(3) in_set_takeD [of n 4 ns] show "digits_only t" by (simp add: z2_facts)
  qed
  moreover have "map z2 (take 4 ns) \<noteq> []" using ns(2) by simp
  ultimately have r: "right \<noteq> []" "isdigit (last right)"
    "\<forall>c \<in> set right. isdigit c \<or> c = CHR '' ''"
    using join_digits [of "map z2 (take 4 ns)"] unfolding right_def by simp_all
  have rc: "\<forall>c \<in> set right. \<not> is_linebreak c"
  proof
    fix c assume "c \<in> set right"
    with r(3) have "isdigit c \<or> c = CHR '' ''" by blast
    then show "\<not> is_linebreak c" using digit_facts(2) [of c] by (auto simp: is_linebreak_def)
  qed
  from raw have raw: "raw = left \<or> raw = left @ CHR 0x09 # right"
    by (simp add: right_def ns_def)
  have 1: "raw \<noteq> []" "hd raw = hd left" using raw l(1) by auto
  have 2: "isdigit (last raw)" using raw l(3) r(1,2) by auto
  have tab: "\<not> is_linebreak (CHR 0x09)" by (simp add: is_linebreak_def)
  have 3: "\<forall>c \<in> set raw. \<not> is_linebreak c"
  proof
    fix c assume "c \<in> set raw"
    with raw have "c \<in> set left \<or> c = CHR 0x09 \<or> c \<in> set right" by auto
    with l(4) rc tab show "\<not> is_linebreak c" by blast
  qed
  have 4: "takeWhile (\<lambda>c. c \<noteq> CHR 0x09) raw = left"
  proof -
    have "takeWhile (\<lambda>c. c \<noteq> CHR 0x09) left = left"
      using l(4) by (simp add: takeWhile_eq_all_conv)
    moreover have "takeWhile (\<lambda>c. c \<noteq> CHR 0x09) (left @ CHR 0x09 # right) =
                     takeWhile (\<lambda>c. c \<noteq> CHR 0x09) left"
      by (rule takeWhile_tail) simp
    ultimately show ?thesis using raw by metis
  qed
  have sp: "\<not> isspace (hd raw)" "\<not> isspace (last raw)"
    using 1 2 l(2) digit_facts(1) by auto
  have st: "strip raw = raw" using strip_clean [OF 1(1) sp, of "[]"] by simp
  have tk: "line_tokens raw =
              map z2 ns @ (case line_pb line of None \<Rightarrow> [] | Some p \<Rightarrow> [''PB'', z2 p])"
    by (simp add: line_tokens_def 4 l(5))
  have sc: "scan_tokens (line_tokens raw) [] None = (ns, line_pb line)"
  proof (cases "line_pb line")
    case None
    then show ?thesis using scan_numbers [OF ns(3), of "[]" "[]" None] by (simp add: tk)
  next
    case (Some p)
    with pb have "1 \<le> p" "p \<le> 10" by simp_all
    from scan_pb [OF this, of ns None] scan_numbers [OF ns(3), of "[''PB'', z2 p]" "[]" None] Some
    show ?thesis by (simp add: tk)
  qed
  have fl: "filter (\<lambda>n. 1 \<le> n \<and> n \<le> 40) ns = ns"
    using ns(3) by (simp add: filter_id_conv)
  then have f: "take 6 (filter (\<lambda>n. 1 \<le> n \<and> n \<le> 40) ns) = ns"
    using ns(1) by simp
  have pr: "(case line_pb line of None \<Rightarrow> None
             | Some p \<Rightarrow> if 1 \<le> p \<and> p \<le> 10 then Some p else None) = line_pb line"
    using pb by (cases "line_pb line") simp_all
  have h: "\<not> startswith raw ''#''" using startswith_hash 1 l(2) by simp
  have ln: "\<lparr>line_nums = ns, line_pb = line_pb line\<rparr> = line" by (simp add: ns_def)
  have "parse_line raw = Some line"
    unfolding parse_line_def st Let_def sc
    using 1(1) h ns(1) by (simp add: fl pr ln)
  with 1(1) sp 3 show ?thesis by blast
qed

text \<open>
  C9. For a ticket line of six distinct numbers in 1..40 with no Powerball or one in
  1..10, the text \<open>add_ticket_line\<close> writes into an empty ticket, with or without the
  Strike column, parses back to exactly that line: the same numbers in the same order
  and the same Powerball.
\<close>

theorem add_ticket_line_roundtrip:
  assumes "line_ok line"
  shows "parse_ticket_lines
           (ticket_text (add_ticket_line (line_nums line) (line_pb line)
                           (s\<lparr>ticket_text := []\<rparr>))) = [line]"
proof -
  define left where "left = (case line_pb line of None \<Rightarrow> join '' '' (map z2 (line_nums line))
                     | Some p \<Rightarrow> join '' '' (map z2 (line_nums line)) @ '' | PB '' @ z2 p)"
  define raw where "raw = (if strike_var s
                           then left @ CHR 0x09 # join '' '' (map z2 (take 4 (line_nums line)))
                           else left)"
  have t: "ticket_text (add_ticket_line (line_nums line) (line_pb line) (s\<lparr>ticket_text := []\<rparr>)) =
             raw @ [CHR 0x0A]"
    by (simp add: add_ticket_line_def Let_def raw_def left_def)
  have "raw = left \<or> raw = left @ CHR 0x09 # join '' '' (map z2 (take 4 (line_nums line)))"
    by (simp add: raw_def)
  from parse_line_emitted [OF assms this [unfolded left_def]]
  have r: "raw \<noteq> []" "\<not> isspace (hd raw)" "\<not> isspace (last raw)"
    "\<forall>c \<in> set raw. \<not> is_linebreak c" "parse_line raw = Some line"
    by blast+
  have "strip (raw @ [CHR 0x0A, CHR 0x0A]) = raw"
    by (rule strip_clean [OF r(1,2,3)]) (simp add: isspace_def)
  then have s: "strip (text_get (raw @ [CHR 0x0A])) = raw" by (simp add: text_get_def)
  have l: "splitlines raw = [raw]"
    using splitlines_plain [OF r(4), of "[]"] r(1) by (simp add: splitlines_def)
  show ?thesis
    unfolding t parse_ticket_lines_def s l by (simp add: r(5))
qed

lemma emitted_line_b:
  "ticket_text (add_ticket_line (line_nums line_b) (line_pb line_b)
                  (initial_app\<lparr>strike_var := True, ticket_text := []\<rparr>)) =
     ''01 02 03 04 05 06 | PB 03'' @ [CHR 0x09] @ ''01 02 03 04'' @ [CHR 0x0A]"
  by code_simp

theorem add_ticket_line_roundtrip_witness:
  "line_ok line_b \<and>
   ticket_text (add_ticket_line (line_nums line_b) (line_pb line_b)
                  (initial_app\<lparr>strike_var := True, ticket_text := []\<rparr>)) =
     ''01 02 03 04 05 06 | PB 03'' @ [CHR 0x09] @ ''01 02 03 04'' @ [CHR 0x0A] \<and>
   parse_ticket_lines
     (ticket_text (add_ticket_line (line_nums line_b) (line_pb line_b)
                     (initial_app\<lparr>strike_var := True, ticket_text := []\<rparr>))) = [line_b]"
  using add_ticket_line_roundtrip [OF lines_ok(2), of "initial_app\<lparr>strike_var := True\<rparr>"]
    lines_ok(2) emitted_line_b
  by simp

end
